theory Spec2Isabelle
  imports Main "HOL-Library.Char_ord" "HOL-Library.Sublist"
begin

section \<open>The paragraph parser of toolsrc/src/Paragraphs.cpp\<close>

text \<open>
  The parser reads CONTROL-style text: paragraphs of \<open>Name: value\<close> fields, separated
  by blank lines. It is a hand-written scanner over a character range \<open>[cur, end)\<close> with
  one character of lookahead, \<open>ch\<close>, which every member function takes by reference.

  The embedding keeps that shape. The \<open>end\<close> pointer never moves, so a pointer into the
  buffer is represented by the characters from it up to \<open>end\<close>: the parser state is the
  unread text, \<open>cur == end\<close> is the empty list and \<open>++cur\<close> is \<open>tl\<close>. The lookahead is
  passed in and handed back by every function, as the reference parameter is.
  \<open>Checks::check_exit\<close> becomes an error value that aborts the whole parse.
\<close>

subsection \<open>Characters\<close>

abbreviation NUL :: char where "NUL \<equiv> CHR 0x00"
abbreviation TAB :: char where "TAB \<equiv> CHR 0x09"
abbreviation LF :: char where "LF \<equiv> CHR 0x0A"
abbreviation CR :: char where "CR \<equiv> CHR 0x0D"
abbreviation SPC :: char where "SPC \<equiv> CHR 0x20"

subsection \<open>Errors\<close>

text \<open>
  \<open>MalformedFieldName\<close> is the failed check \<open>ch == ':'\<close> ("Expected ':'"),
  \<open>DuplicateField\<close> the failed check \<open>it == fields.end()\<close> ("Duplicate field"), and
  \<open>ExpectedOnlyOneParagraph\<close> the error code \<open>EXPECTED_ONE_PARAGRAPH\<close>. \<open>IOError\<close> is
  whatever \<open>Files::read_contents\<close> reports.
\<close>

datatype error = MalformedFieldName | DuplicateField | ExpectedOnlyOneParagraph | IOError nat

subsection \<open>The cursor\<close>

text \<open>
  \<open>next\<close> is \<open>next_ch\<close> here. It writes \<open>ch\<close> without reading it, so it takes the cursor
  alone and returns the new lookahead with the new cursor.
\<close>

type_synonym parser = string

definition peek :: "parser \<Rightarrow> char" where
  "peek p = (case p of [] \<Rightarrow> NUL | c # _ \<Rightarrow> c)"

definition next_ch :: "parser \<Rightarrow> char \<times> parser" where
  "next_ch p = (case p of [] \<Rightarrow> (NUL, p) | _ # p' \<Rightarrow> (peek p', p'))"

text \<open>\<open>std::string(first, last)\<close> for two pointers \<open>b \<le> e\<close> into the buffer.\<close>

definition range_string :: "parser \<Rightarrow> parser \<Rightarrow> string" where
  "range_string b e = take (length b - length e) b"

function skip_spaces :: "char \<Rightarrow> parser \<Rightarrow> char \<times> parser" where
  "skip_spaces ch p =
     (if ch = SPC \<or> ch = TAB
      then (case next_ch p of (ch', p') \<Rightarrow> skip_spaces ch' p')
      else (ch, p))"
  by pat_completeness auto
termination
  by (relation "measure (\<lambda>(ch, p). 2 * length p + (if ch = NUL then 0 else 1))")
     (auto simp: next_ch_def split: list.splits)

declare skip_spaces.simps [simp del]

text \<open>
  Characters are compared by their codes (\<open>HOL-Library.Char_ord\<close>). Where \<open>char\<close> is
  signed the bytes from 128 on are negative in the source and above \<open>'z'\<close> here; either
  way they are outside all three ranges.
\<close>

definition is_alphanum :: "char \<Rightarrow> bool" where
  "is_alphanum ch \<longleftrightarrow>
     (ch \<ge> CHR ''A'' \<and> ch \<le> CHR ''Z'')
     \<or> (ch \<ge> CHR ''a'' \<and> ch \<le> CHR ''z'')
     \<or> (ch \<ge> CHR ''0'' \<and> ch \<le> CHR ''9'')"

definition is_lineend :: "char \<Rightarrow> bool" where
  "is_lineend ch \<longleftrightarrow> ch = CR \<or> ch = LF \<or> ch = NUL"

subsection \<open>Field values\<close>

text \<open>The inner loop of \<open>get_fieldvalue\<close>: \<open>while (!is_lineend(ch)) next(ch);\<close>\<close>

function scan_line :: "char \<Rightarrow> parser \<Rightarrow> char \<times> parser" where
  "scan_line ch p =
     (if \<not> is_lineend ch
      then (case next_ch p of (ch', p') \<Rightarrow> scan_line ch' p')
      else (ch, p))"
  by pat_completeness auto
termination
  by (relation "measure (\<lambda>(ch, p). 2 * length p + (if ch = NUL then 0 else 1))")
     (auto simp: next_ch_def is_lineend_def split: list.splits)

declare scan_line.simps [simp del]

lemma next_ch_length: "next_ch p = (ch', p') \<Longrightarrow> length p' \<le> length p"
  by (auto simp: next_ch_def split: list.splits)

lemma next_ch_stuck: "next_ch p = (ch', p') \<Longrightarrow> length p \<le> length p' \<Longrightarrow> ch' = NUL \<and> p' = [] \<and> p = []"
  by (auto simp: next_ch_def split: list.splits)

lemma skip_spaces_length: "skip_spaces ch p = (ch', p') \<Longrightarrow> length p' \<le> length p"
proof (induction ch p rule: skip_spaces.induct)
  case (1 ch p)
  show ?case
  proof (cases "ch = SPC \<or> ch = TAB")
    case True
    obtain c q where nx: "next_ch p = (c, q)" by (cases "next_ch p")
    have "length p' \<le> length q"
      using "1.IH" [OF True nx [symmetric]] "1.prems" True nx
      by (simp add: skip_spaces.simps [of ch p])
    with next_ch_length [OF nx] show ?thesis by simp
  next
    case False
    with "1.prems" show ?thesis by (simp add: skip_spaces.simps [of ch p])
  qed
qed

lemma skip_spaces_NUL: "skip_spaces NUL p = (NUL, p)"
  by (simp add: skip_spaces.simps [of NUL p])

lemma scan_line_length: "scan_line ch p = (ch', p') \<Longrightarrow> length p' \<le> length p"
proof (induction ch p rule: scan_line.induct)
  case (1 ch p)
  show ?case
  proof (cases "is_lineend ch")
    case False
    obtain c q where nx: "next_ch p = (c, q)" by (cases "next_ch p")
    have "length p' \<le> length q"
      using "1.IH" [OF False nx [symmetric]] "1.prems" False nx
      by (simp add: scan_line.simps [of ch p])
    with next_ch_length [OF nx] show ?thesis by simp
  next
    case True
    with "1.prems" show ?thesis by (simp add: scan_line.simps [of ch p])
  qed
qed

lemma scan_line_lineend: "scan_line ch p = (ch', p') \<Longrightarrow> is_lineend ch'"
proof (induction ch p rule: scan_line.induct)
  case (1 ch p)
  show ?case
  proof (cases "is_lineend ch")
    case False
    obtain c q where nx: "next_ch p = (c, q)" by (cases "next_ch p")
    show ?thesis
      using "1.IH" [OF False nx [symmetric]] "1.prems" False nx
      by (simp add: scan_line.simps [of ch p])
  next
    case True
    with "1.prems" show ?thesis by (simp add: scan_line.simps [of ch p])
  qed
qed

text \<open>
  The \<open>do { ... } while (true)\<close> of \<open>get_fieldvalue\<close>, one iteration per physical line.
  \<open>beginning_of_line\<close> and \<open>fieldvalue\<close> are the loop's local state.
\<close>

function get_fieldvalue_loop :: "char \<Rightarrow> parser \<Rightarrow> parser \<Rightarrow> string \<Rightarrow> char \<times> string \<times> parser" where
  "get_fieldvalue_loop ch p beginning_of_line fieldvalue =
     (case scan_line ch p of (ch1, p1) \<Rightarrow>
      let fieldvalue1 = fieldvalue @ range_string beginning_of_line p1 in
      case (if ch1 = CR then next_ch p1 else (ch1, p1)) of (ch2, p2) \<Rightarrow>
      case (if ch2 = LF then next_ch p2 else (ch2, p2)) of (ch3, p3) \<Rightarrow>
      if is_alphanum ch3 then (ch3, fieldvalue1, p3)
      else
        let beginning_of_line' = p3 in
        case skip_spaces ch3 p3 of (ch4, p4) \<Rightarrow>
        if is_lineend ch4 then (ch4, fieldvalue1, p4)
        else get_fieldvalue_loop ch4 p4 beginning_of_line' (fieldvalue1 @ [LF]))"
  by pat_completeness auto
termination
proof (relation "measure (\<lambda>(ch, p, b, v). length p)", goal_cases)
  case 1
  show ?case by simp
next
  case (2 ch p b v ch1 p1 fv1 ch2 p2 ch3 p3 b' ch4 p4)
  have l1: "length p1 \<le> length p" and e1: "is_lineend ch1"
    using 2 scan_line_length [of ch p ch1 p1] scan_line_lineend [of ch p ch1 p1] by simp_all
  have s2: "(if ch1 = CR then next_ch p1 else (ch1, p1)) = (ch2, p2)"
    and s3: "(if ch2 = LF then next_ch p2 else (ch2, p2)) = (ch3, p3)"
    and s4: "skip_spaces ch3 p3 = (ch4, p4)"
    using 2 by simp_all
  have l2: "length p2 \<le> length p1"
    using s2 next_ch_length [of p1 ch2 p2] by (auto split: if_splits)
  have l3: "length p3 \<le> length p2"
    using s3 next_ch_length [of p2 ch3 p3] by (auto split: if_splits)
  have l4: "length p4 \<le> length p3"
    using s4 by (rule skip_spaces_length)
  have "length p4 \<noteq> length p"
  proof
    assume eq: "length p4 = length p"
    have c2: "ch2 = NUL \<or> ch2 = LF"
      using s2 e1 eq l1 l2 l3 l4 next_ch_stuck [of p1 ch2 p2]
      by (auto simp: is_lineend_def split: if_splits)
    have "ch3 = NUL"
      using s3 c2 eq l1 l2 l3 l4 next_ch_stuck [of p2 ch3 p3]
      by (auto split: if_splits)
    with s4 have "ch4 = NUL" by (simp add: skip_spaces_NUL)
    with \<open>\<not> is_lineend ch4\<close> show False by (simp add: is_lineend_def)
  qed
  with l1 l2 l3 l4 show ?case by simp
qed

declare get_fieldvalue_loop.simps [simp del]

definition get_fieldvalue :: "char \<Rightarrow> parser \<Rightarrow> char \<times> string \<times> parser" where
  "get_fieldvalue ch p = get_fieldvalue_loop ch p p []"

lemma get_fieldvalue_loop_step:
  assumes "scan_line ch p = (ch1, p1)"
    and "(if ch1 = CR then next_ch p1 else (ch1, p1)) = (ch2, p2)"
    and "(if ch2 = LF then next_ch p2 else (ch2, p2)) = (ch3, p3)"
    and "skip_spaces ch3 p3 = (ch4, p4)"
  shows "get_fieldvalue_loop ch p b v =
     (if is_alphanum ch3 then (ch3, v @ range_string b p1, p3)
      else if is_lineend ch4 then (ch4, v @ range_string b p1, p4)
      else get_fieldvalue_loop ch4 p4 p3 (v @ range_string b p1 @ [LF]))"
  using assms by (simp add: get_fieldvalue_loop.simps [of ch p b v])

lemma get_fieldvalue_loop_length:
  "get_fieldvalue_loop ch p b v = (ch', v', p') \<Longrightarrow> length p' \<le> length p"
proof (induction ch p b v rule: get_fieldvalue_loop.induct)
  case (1 ch p b v)
  obtain ch1 p1 where s1: "scan_line ch p = (ch1, p1)"
    by (cases "scan_line ch p")
  obtain ch2 p2 where s2: "(if ch1 = CR then next_ch p1 else (ch1, p1)) = (ch2, p2)"
    by (cases "if ch1 = CR then next_ch p1 else (ch1, p1)")
  obtain ch3 p3 where s3: "(if ch2 = LF then next_ch p2 else (ch2, p2)) = (ch3, p3)"
    by (cases "if ch2 = LF then next_ch p2 else (ch2, p2)")
  obtain ch4 p4 where s4: "skip_spaces ch3 p3 = (ch4, p4)"
    by (cases "skip_spaces ch3 p3")
  note step = get_fieldvalue_loop_step [OF s1 s2 s3 s4, of b v]
  have l1: "length p1 \<le> length p"
    using s1 by (rule scan_line_length)
  have l2: "length p2 \<le> length p1"
    using s2 next_ch_length [of p1 ch2 p2] by (auto split: if_splits)
  have l3: "length p3 \<le> length p2"
    using s3 next_ch_length [of p2 ch3 p3] by (auto split: if_splits)
  have l4: "length p4 \<le> length p3"
    using s4 by (rule skip_spaces_length)
  show ?case
  proof (cases "is_alphanum ch3 \<or> is_lineend ch4")
    case True
    with "1.prems" step l1 l2 l3 l4 show ?thesis by (auto split: if_splits)
  next
    case False
    then have "get_fieldvalue_loop ch4 p4 p3 ((v @ range_string b p1) @ [LF]) = (ch', v', p')"
      using "1.prems" step by simp
    then have "length p' \<le> length p4"
      using "1.IH" [OF s1 [symmetric] refl s2 [symmetric] s3 [symmetric] _ refl s4 [symmetric]] False
      by simp
    with l1 l2 l3 l4 show ?thesis by simp
  qed
qed

lemma get_fieldvalue_NUL_Nil: "get_fieldvalue NUL [] = (NUL, [], [])"
proof -
  have "scan_line NUL [] = (NUL, [])"
    by (simp add: scan_line.simps [of NUL] is_lineend_def)
  from get_fieldvalue_loop_step [OF this, of NUL "[]" NUL "[]" NUL "[]" "[]" "[]"]
  show ?thesis
    by (simp add: get_fieldvalue_def skip_spaces_NUL is_lineend_def is_alphanum_def
        range_string_def)
qed

subsection \<open>Field names\<close>

text \<open>The loop of \<open>get_fieldname\<close>: \<open>while (is_alphanum(ch) || ch == '-') next(ch);\<close>\<close>

function scan_name :: "char \<Rightarrow> parser \<Rightarrow> char \<times> parser" where
  "scan_name ch p =
     (if is_alphanum ch \<or> ch = CHR ''-''
      then (case next_ch p of (ch', p') \<Rightarrow> scan_name ch' p')
      else (ch, p))"
  by pat_completeness auto
termination
  by (relation "measure (\<lambda>(ch, p). 2 * length p + (if ch = NUL then 0 else 1))")
     (auto simp: next_ch_def is_alphanum_def split: list.splits)

declare scan_name.simps [simp del]

text \<open>
  Modelled from the spec: \<open>Checks::check_exit\<close> is declared outside this file. A check
  that fails is fatal to the parse (the specification's error handling: the first failure
  aborts the entire operation); it is the error value here, and a check that holds does
  nothing.
\<close>

definition check_exit :: "bool \<Rightarrow> error \<Rightarrow> error + unit" where
  "check_exit expression err = (if expression then Inr () else Inl err)"

definition get_fieldname :: "char \<Rightarrow> parser \<Rightarrow> error + (char \<times> string \<times> parser)" where
  "get_fieldname ch p =
     (let begin_fieldname = p in
      case scan_name ch p of (ch1, p1) \<Rightarrow>
      (case check_exit (ch1 = CHR '':'') MalformedFieldName of
         Inl e \<Rightarrow> Inl e
       | Inr _ \<Rightarrow>
           let fieldname = range_string begin_fieldname p1 in
           case next_ch p1 of (ch2, p2) \<Rightarrow>
           case skip_spaces ch2 p2 of (ch3, p3) \<Rightarrow> Inr (ch3, fieldname, p3)))"

lemma scan_name_length: "scan_name ch p = (ch', p') \<Longrightarrow> length p' \<le> length p"
proof (induction ch p rule: scan_name.induct)
  case (1 ch p)
  show ?case
  proof (cases "is_alphanum ch \<or> ch = CHR ''-''")
    case True
    obtain c q where nx: "next_ch p = (c, q)" by (cases "next_ch p")
    have "length p' \<le> length q"
      using "1.IH" [OF True nx [symmetric]] "1.prems" True nx
      by (simp add: scan_name.simps [of ch p])
    with next_ch_length [OF nx] show ?thesis by simp
  next
    case False
    with "1.prems" show ?thesis by (simp add: scan_name.simps [of ch p])
  qed
qed

lemma get_fieldname_progress:
  assumes "get_fieldname ch p = Inr (ch', nm, p')"
  shows "length p' < length p \<or> (p' = [] \<and> ch' = NUL)"
proof -
  obtain ch1 p1 where s1: "scan_name ch p = (ch1, p1)" by (cases "scan_name ch p")
  obtain ch2 p2 where s2: "next_ch p1 = (ch2, p2)" by (cases "next_ch p1")
  have s3: "skip_spaces ch2 p2 = (ch', p')"
    using assms s1 s2
    by (auto simp: get_fieldname_def check_exit_def split: if_splits prod.splits)
  have l1: "length p1 \<le> length p" using s1 by (rule scan_name_length)
  have l3: "length p' \<le> length p2" using s3 by (rule skip_spaces_length)
  show ?thesis
  proof (cases "length p2 < length p1")
    case True
    with l1 l3 show ?thesis by simp
  next
    case False
    then have "ch2 = NUL \<and> p2 = []"
      using next_ch_stuck [OF s2] by simp
    with s3 show ?thesis by (simp add: skip_spaces_NUL)
  qed
qed

subsection \<open>Paragraphs\<close>

text \<open>
  A paragraph is the \<open>std::unordered_map<std::string, std::string>\<close> that
  \<open>get_paragraph\<close> fills: here the list of its entries in the order they were inserted,
  with \<open>find\<close> and \<open>emplace\<close> (which inserts only where the key is absent).
\<close>

type_synonym fieldmap = "(string \<times> string) list"

definition find_field :: "fieldmap \<Rightarrow> string \<Rightarrow> string option" where
  "find_field fields k = map_of fields k"

definition emplace :: "fieldmap \<Rightarrow> string \<Rightarrow> string \<Rightarrow> fieldmap" where
  "emplace fields k v = (case find_field fields k of None \<Rightarrow> fields @ [(k, v)] | Some _ \<Rightarrow> fields)"

function get_paragraph_loop :: "char \<Rightarrow> parser \<Rightarrow> fieldmap \<Rightarrow> error + (char \<times> fieldmap \<times> parser)" where
  "get_paragraph_loop ch p fields =
     (case get_fieldname ch p of
        Inl e \<Rightarrow> Inl e
      | Inr (ch1, fieldname, p1) \<Rightarrow>
          let it = find_field fields fieldname in
          (case check_exit (it = None) DuplicateField of
             Inl e \<Rightarrow> Inl e
           | Inr _ \<Rightarrow>
               case get_fieldvalue ch1 p1 of (ch2, fieldvalue, p2) \<Rightarrow>
               let fields' = emplace fields fieldname fieldvalue in
               if \<not> is_lineend ch2 then get_paragraph_loop ch2 p2 fields'
               else Inr (ch2, fields', p2)))"
  by pat_completeness auto
termination
proof (relation "measure (\<lambda>(ch, p, fields). length p)", goal_cases)
  case 1
  show ?case by simp
next
  case (2 ch p fields x ch1 y nm p1 it u ch2 z fv p2 fields')
  have fn: "get_fieldname ch p = Inr (ch1, nm, p1)"
    and fv: "get_fieldvalue ch1 p1 = (ch2, fv, p2)"
    using 2 by simp_all
  have l2: "length p2 \<le> length p1"
    using fv get_fieldvalue_loop_length by (simp add: get_fieldvalue_def)
  from get_fieldname_progress [OF fn] have "length p1 < length p"
  proof
    assume "p1 = [] \<and> ch1 = NUL"
    with fv \<open>\<not> is_lineend ch2\<close> show ?thesis
      by (simp add: get_fieldvalue_NUL_Nil is_lineend_def)
  qed simp
  with l2 show ?case by simp
qed

declare get_paragraph_loop.simps [simp del]

definition get_paragraph :: "char \<Rightarrow> parser \<Rightarrow> error + (char \<times> fieldmap \<times> parser)" where
  "get_paragraph ch p = get_paragraph_loop ch p []"

lemma get_paragraph_loop_error:
  "get_fieldname ch p = Inl e \<Longrightarrow> get_paragraph_loop ch p fields = Inl e"
  by (simp add: get_paragraph_loop.simps [of ch p fields])

lemma get_paragraph_loop_step:
  assumes "get_fieldname ch p = Inr (ch1, nm, p1)"
    and "get_fieldvalue ch1 p1 = (ch2, fv, p2)"
  shows "get_paragraph_loop ch p fields =
     (if find_field fields nm \<noteq> None then Inl DuplicateField
      else if \<not> is_lineend ch2 then get_paragraph_loop ch2 p2 (emplace fields nm fv)
      else Inr (ch2, emplace fields nm fv, p2))"
  using assms by (simp add: get_paragraph_loop.simps [of ch p fields] check_exit_def)

lemma get_paragraph_loop_progress:
  "get_paragraph_loop ch p fields = Inr (ch', fields', p')
   \<Longrightarrow> length p' < length p \<or> (p' = [] \<and> ch' = NUL)"
proof (induction ch p fields rule: get_paragraph_loop.induct)
  case (1 ch p fields)
  from "1.prems" obtain ch1 nm p1 where fn: "get_fieldname ch p = Inr (ch1, nm, p1)"
    by (cases "get_fieldname ch p") (auto simp: get_paragraph_loop_error)
  obtain ch2 fv p2 where fv: "get_fieldvalue ch1 p1 = (ch2, fv, p2)"
    by (cases "get_fieldvalue ch1 p1")
  note step = get_paragraph_loop_step [OF fn fv, of fields]
  have nodup: "check_exit (find_field fields nm = None) DuplicateField = Inr ()"
    using "1.prems" step by (auto simp: check_exit_def split: if_splits)
  have l2: "length p2 \<le> length p1"
    using fv get_fieldvalue_loop_length by (simp add: get_fieldvalue_def)
  have first: "length p2 < length p \<or> (p2 = [] \<and> ch2 = NUL)"
    using get_fieldname_progress [OF fn] fv l2 by (auto simp: get_fieldvalue_NUL_Nil)
  show ?case
  proof (cases "is_lineend ch2")
    case True
    with "1.prems" step nodup first show ?thesis
      by (auto simp: check_exit_def split: if_splits)
  next
    case False
    then have "get_paragraph_loop ch2 p2 (emplace fields nm fv) = Inr (ch', fields', p')"
      using "1.prems" step nodup by (auto simp: check_exit_def split: if_splits)
    from "1.IH" [OF fn refl refl refl nodup fv [symmetric] refl refl False this] first False
    show ?thesis by (auto simp: is_lineend_def)
  qed
qed

subsection \<open>Documents\<close>

text \<open>The \<open>while (ch != 0)\<close> of \<open>Parser::get_paragraphs\<close>; \<open>paragraphs\<close> is the vector built so far.\<close>

function get_paragraphs_loop :: "char \<Rightarrow> parser \<Rightarrow> fieldmap list \<Rightarrow> error + fieldmap list" where
  "get_paragraphs_loop ch p paragraphs =
     (if ch \<noteq> NUL then
        if ch = LF \<or> ch = CR \<or> ch = SPC \<or> ch = TAB
        then (case next_ch p of (ch', p') \<Rightarrow> get_paragraphs_loop ch' p' paragraphs)
        else
          (case get_paragraph ch p of
             Inl e \<Rightarrow> Inl e
           | Inr (ch', fields, p') \<Rightarrow> get_paragraphs_loop ch' p' (paragraphs @ [fields]))
      else Inr paragraphs)"
  by pat_completeness auto
termination
proof (relation "measure (\<lambda>(ch, p, ps). 2 * length p + (if ch = NUL then 0 else 1))", goal_cases)
  case 1
  show ?case by simp
next
  case (2 ch p ps ch' p')
  then show ?case by (auto simp: next_ch_def split: list.splits)
next
  case (3 ch p ps x ch' y fields p')
  then have "get_paragraph_loop ch p [] = Inr (ch', fields, p')"
    by (simp add: get_paragraph_def)
  from get_paragraph_loop_progress [OF this] \<open>ch \<noteq> NUL\<close> show ?case by auto
qed

declare get_paragraphs_loop.simps [simp del]

definition get_paragraphs :: "parser \<Rightarrow> error + fieldmap list" where
  "get_paragraphs p = (let ch = peek p in get_paragraphs_loop ch p [])"

subsection \<open>Entry points\<close>

text \<open>\<open>Parser(str.c_str(), str.c_str() + str.size())\<close> is the whole string, NUL bytes included.\<close>

definition parse_paragraphs :: "string \<Rightarrow> error + fieldmap list" where
  "parse_paragraphs str = get_paragraphs str"

definition parse_single_paragraph :: "string \<Rightarrow> error + fieldmap" where
  "parse_single_paragraph str =
     (case get_paragraphs str of
        Inl e \<Rightarrow> Inl e
      | Inr p \<Rightarrow> if length p = 1 then Inr (p ! 0) else Inl ExpectedOnlyOneParagraph)"

text \<open>
  \<open>Files::read_contents\<close> is not part of this file; \<open>get_single_paragraph\<close> takes it as
  a parameter.
\<close>

definition get_single_paragraph :: "('path \<Rightarrow> error + string) \<Rightarrow> 'path \<Rightarrow> error + fieldmap" where
  "get_single_paragraph read_contents control_path =
     (case read_contents control_path of
        Inr spgh \<Rightarrow> parse_single_paragraph spgh
      | Inl ec \<Rightarrow> Inl ec)"

subsection \<open>Port names and versions\<close>

text \<open>
  Of a \<open>SourceParagraph\<close> only \<open>name\<close> and \<open>version\<close> are read here; \<open>version_t\<close> is
  a type parameter. The result is a \<open>std::map\<close>, whose \<open>emplace\<close> leaves an existing
  key alone.
\<close>

record 'v SourceParagraph =
  name :: string
  version :: 'v

definition map_emplace :: "('k \<rightharpoonup> 'v) \<Rightarrow> 'k \<Rightarrow> 'v \<Rightarrow> ('k \<rightharpoonup> 'v)" where
  "map_emplace m k v = (case m k of None \<Rightarrow> m(k \<mapsto> v) | Some _ \<Rightarrow> m)"

definition extract_port_names_and_versions :: "'v SourceParagraph list \<Rightarrow> (string \<rightharpoonup> 'v)" where
  "extract_port_names_and_versions source_paragraphs =
     fold (\<lambda>port names_and_versions. map_emplace names_and_versions (name port) (version port))
       source_paragraphs Map.empty"

section \<open>The parser on a cursor that agrees with its lookahead\<close>

text \<open>
  \<open>get_paragraphs\<close> starts with \<open>peek(ch)\<close> and every later change of \<open>ch\<close> goes through
  \<open>next\<close>, so \<open>ch\<close> is always the character under the cursor. On such states the loops
  are \<open>takeWhile\<close> and \<open>dropWhile\<close> over the unread text, and \<open>field_value\<close> below is what
  \<open>get_fieldvalue\<close> computes.
\<close>

text \<open>
  Names for the conditions of the three scanning loops, and for the two \<open>if\<close>s of
  \<open>get_fieldvalue\<close> that consume a line terminator (\<open>drop_eol\<close>).
\<close>

definition is_space :: "char \<Rightarrow> bool" where
  "is_space c \<longleftrightarrow> c = SPC \<or> c = TAB"

definition name_char :: "char \<Rightarrow> bool" where
  "name_char c \<longleftrightarrow> is_alphanum c \<or> c = CHR ''-''"

definition in_line :: "char \<Rightarrow> bool" where
  "in_line c \<longleftrightarrow> \<not> is_lineend c"

definition drop_eol :: "string \<Rightarrow> string" where
  "drop_eol r = (let r2 = (if peek r = CR then tl r else r) in if peek r2 = LF then tl r2 else r2)"

lemma peek_Nil [simp]: "peek [] = NUL"
  by (simp add: peek_def)

lemma peek_Cons [simp]: "peek (c # p) = c"
  by (simp add: peek_def)

lemma next_ch_Nil [simp]: "next_ch [] = (NUL, [])"
  by (simp add: next_ch_def)

lemma next_ch_Cons [simp]: "next_ch (c # p) = (peek p, p)"
  by (simp add: next_ch_def)

lemma peek_append: "peek (p @ q) = (if p = [] then peek q else peek p)"
  by (cases p) simp_all

lemma is_space_simps [simp]:
  "is_space SPC" "is_space TAB" "\<not> is_space NUL" "\<not> is_space LF" "\<not> is_space CR"
  by (simp_all add: is_space_def)

lemma in_line_simps [simp]:
  "\<not> in_line NUL" "\<not> in_line LF" "\<not> in_line CR"
  by (simp_all add: in_line_def is_lineend_def)

lemma is_lineend_simps [simp]:
  "is_lineend NUL" "is_lineend LF" "is_lineend CR"
  by (simp_all add: is_lineend_def)

lemma is_alphanum_simps [simp]:
  "\<not> is_alphanum NUL" "\<not> is_alphanum LF" "\<not> is_alphanum CR" "\<not> is_alphanum SPC"
  "\<not> is_alphanum TAB" "\<not> is_alphanum (CHR '':'')" "\<not> is_alphanum (CHR ''-'')"
  by (simp_all add: is_alphanum_def)

lemma name_char_simps [simp]:
  "\<not> name_char NUL" "\<not> name_char LF" "\<not> name_char CR" "\<not> name_char SPC"
  "\<not> name_char TAB" "\<not> name_char (CHR '':'')" "name_char (CHR ''-'')"
  by (simp_all add: name_char_def)

lemma is_space_in_line: "is_space c \<Longrightarrow> in_line c"
  by (auto simp: is_space_def in_line_def is_lineend_def)

lemma is_alphanum_in_line: "is_alphanum c \<Longrightarrow> in_line c"
  by (auto simp: in_line_def is_lineend_def)

lemma is_alphanum_not_space: "is_alphanum c \<Longrightarrow> \<not> is_space c"
  by (auto simp: is_space_def)

lemma is_alphanum_name_char: "is_alphanum c \<Longrightarrow> name_char c"
  by (simp add: name_char_def)

lemma skip_spaces_sync:
  "skip_spaces (peek p) p = (peek (dropWhile is_space p), dropWhile is_space p)"
proof (induction p)
  case Nil
  show ?case by (simp add: skip_spaces_NUL)
next
  case (Cons c p)
  show ?case
    using Cons.IH by (simp add: skip_spaces.simps [of c "c # p"] is_space_def)
qed

lemma scan_line_sync:
  "scan_line (peek p) p = (peek (dropWhile in_line p), dropWhile in_line p)"
proof (induction p)
  case Nil
  show ?case by (simp add: scan_line.simps [of NUL])
next
  case (Cons c p)
  show ?case
    using Cons.IH by (simp add: scan_line.simps [of c "c # p"] in_line_def)
qed

lemma scan_name_sync:
  "scan_name (peek p) p = (peek (dropWhile name_char p), dropWhile name_char p)"
proof (induction p)
  case Nil
  show ?case by (simp add: scan_name.simps [of NUL])
next
  case (Cons c p)
  show ?case
    using Cons.IH by (simp add: scan_name.simps [of c "c # p"] name_char_def)
qed

lemma range_string_dropWhile: "range_string p (dropWhile P p) = takeWhile P p"
proof -
  have "length p = length (takeWhile P p) + length (dropWhile P p)"
    by (metis length_append takeWhile_dropWhile_id)
  then show ?thesis
    by (simp add: range_string_def takeWhile_eq_take [symmetric])
qed

lemma peek_dropWhile: "\<not> P NUL \<Longrightarrow> \<not> P (peek (dropWhile P p))"
  by (induction p) simp_all

lemma get_fieldname_sync:
  "get_fieldname (peek p) p =
     (if peek (dropWhile name_char p) \<noteq> CHR '':'' then Inl MalformedFieldName
      else Inr (peek (dropWhile is_space (tl (dropWhile name_char p))),
                takeWhile name_char p,
                dropWhile is_space (tl (dropWhile name_char p))))"
proof -
  define r where "r = dropWhile name_char p"
  have nm: "range_string p r = takeWhile name_char p"
    by (simp add: r_def range_string_dropWhile)
  have "get_fieldname (peek p) p =
     (if peek r \<noteq> CHR '':'' then Inl MalformedFieldName
      else Inr (peek (dropWhile is_space (tl r)), takeWhile name_char p, dropWhile is_space (tl r)))"
  proof (cases "peek r = CHR '':''")
    case True
    then have "next_ch r = (peek (tl r), tl r)"
      by (cases r) simp_all
    then show ?thesis
      using True nm
      by (simp add: get_fieldname_def check_exit_def scan_name_sync r_def [symmetric]
          skip_spaces_sync)
  next
    case False
    then show ?thesis
      by (simp add: get_fieldname_def check_exit_def scan_name_sync r_def [symmetric])
  qed
  then show ?thesis by (simp add: r_def)
qed

lemma drop_eol_length: "length (drop_eol r) \<le> length r"
  by (cases r) (auto simp: drop_eol_def Let_def peek_def split: list.splits)

lemma drop_eol_progress:
  assumes "\<not> is_lineend (peek (dropWhile is_space (drop_eol (dropWhile in_line b))))"
  shows "length (drop_eol (dropWhile in_line b)) < length b"
proof (cases "dropWhile in_line b")
  case Nil
  with assms show ?thesis by (simp add: drop_eol_def)
next
  case (Cons c q)
  have "\<not> in_line c"
    using hd_dropWhile [of in_line b] Cons by simp
  then have c: "c = CR \<or> c = LF \<or> c = NUL"
    by (simp add: in_line_def is_lineend_def)
  have "c \<noteq> NUL"
    using assms Cons by (auto simp: drop_eol_def)
  with c have "length (drop_eol (c # q)) \<le> length q"
    by (cases q) (auto simp: drop_eol_def Let_def)
  moreover have "length (c # q) \<le> length b"
    using length_dropWhile_le [of in_line b] Cons by simp
  ultimately show ?thesis using Cons by simp
qed

function field_value :: "string \<Rightarrow> string \<times> string" where
  "field_value b =
     (let line = takeWhile in_line b; r3 = drop_eol (dropWhile in_line b) in
      if is_alphanum (peek r3) then (line, r3)
      else
        let r4 = dropWhile is_space r3 in
        if is_lineend (peek r4) then (line, r4)
        else (case field_value r3 of (v, r) \<Rightarrow> (line @ LF # v, r)))"
  by pat_completeness auto
termination
  by (relation "measure length") (auto simp: drop_eol_progress)

declare field_value.simps [simp del]

lemma get_fieldvalue_loop_sync:
  "b = pre @ p \<Longrightarrow> \<forall>c\<in>set pre. in_line c
   \<Longrightarrow> get_fieldvalue_loop (peek p) p b v = (case field_value b of (val, r) \<Rightarrow> (peek r, v @ val, r))"
proof (induction b arbitrary: pre p v rule: field_value.induct)
  case (1 b)
  define r1 where "r1 = dropWhile in_line b"
  define r2 where "r2 = (if peek r1 = CR then tl r1 else r1)"
  define r3 where "r3 = (if peek r2 = LF then tl r2 else r2)"
  define r4 where "r4 = dropWhile is_space r3"
  have r1: "dropWhile in_line p = r1"
    using "1.prems" by (simp add: r1_def)
  have r3: "drop_eol r1 = r3"
    by (simp add: drop_eol_def r2_def r3_def)
  have s1: "scan_line (peek p) p = (peek r1, r1)"
    by (simp add: scan_line_sync r1)
  have s2: "(if peek r1 = CR then next_ch r1 else (peek r1, r1)) = (peek r2, r2)"
    by (cases r1) (auto simp: r2_def)
  have s3: "(if peek r2 = LF then next_ch r2 else (peek r2, r2)) = (peek r3, r3)"
    by (cases r2) (auto simp: r3_def)
  have s4: "skip_spaces (peek r3) r3 = (peek r4, r4)"
    by (simp add: skip_spaces_sync r4_def)
  have line: "range_string b r1 = takeWhile in_line b"
    by (simp add: r1_def range_string_dropWhile)
  note step = get_fieldvalue_loop_step [OF s1 s2 s3 s4, of b v]
  note fv = field_value.simps [of b]
  show ?case
  proof (cases "is_alphanum (peek r3) \<or> is_lineend (peek r4)")
    case True
    then show ?thesis
      using step fv line r3 by (auto simp: r1_def [symmetric] r4_def [symmetric] Let_def)
  next
    case False
    have na: "\<not> is_alphanum (peek (drop_eol (dropWhile in_line b)))"
      using False r3 by (simp add: r1_def)
    have nl: "\<not> is_lineend (peek (dropWhile is_space (drop_eol (dropWhile in_line b))))"
      using False r3 by (simp add: r1_def r4_def)
    have pre: "drop_eol (dropWhile in_line b) = takeWhile is_space r3 @ r4"
      using r3 by (simp add: r1_def r4_def)
    have inl: "\<forall>c\<in>set (takeWhile is_space r3). in_line c"
      by (auto dest: set_takeWhileD is_space_in_line)
    have "get_fieldvalue_loop (peek r4) r4 r3 (v @ takeWhile in_line b @ [LF]) =
        (case field_value r3 of (val, r) \<Rightarrow> (peek r, (v @ takeWhile in_line b @ [LF]) @ val, r))"
      using "1.IH" [OF refl refl na refl nl pre inl, of "v @ takeWhile in_line b @ [LF]"] r3
      by (simp add: r1_def)
    then show ?thesis
      using False step fv line r3
      by (auto simp: r1_def [symmetric] r4_def [symmetric] Let_def split: prod.splits)
  qed
qed

lemma get_fieldvalue_sync:
  "get_fieldvalue (peek p) p = (case field_value p of (val, r) \<Rightarrow> (peek r, val, r))"
  using get_fieldvalue_loop_sync [of p "[]" p "[]"] by (simp add: get_fieldvalue_def)


definition is_blank :: "char \<Rightarrow> bool" where
  "is_blank c \<longleftrightarrow> c = LF \<or> c = CR \<or> c = SPC \<or> c = TAB"

definition value_start :: "string \<Rightarrow> string" where
  "value_start p = dropWhile is_space (tl (dropWhile name_char p))"

lemma field_value_length: "field_value b = (v, r) \<Longrightarrow> length r \<le> length b"
proof (induction b arbitrary: v r rule: field_value.induct)
  case (1 b)
  define r3 where "r3 = drop_eol (dropWhile in_line b)"
  have l3: "length r3 \<le> length b"
    using drop_eol_length [of "dropWhile in_line b"] length_dropWhile_le [of in_line b]
    by (simp add: r3_def)
  show ?case
  proof (cases "is_alphanum (peek r3) \<or> is_lineend (peek (dropWhile is_space r3))")
    case True
    then show ?thesis
      using "1.prems" l3 length_dropWhile_le [of is_space r3]
      by (auto simp: field_value.simps [of b] r3_def [symmetric] Let_def split: if_splits)
  next
    case False
    obtain v' r' where rec: "field_value r3 = (v', r')" by (cases "field_value r3")
    have "length r' \<le> length r3"
      using "1.IH" [OF refl refl _ refl _ rec [unfolded r3_def]] False
      by (simp add: r3_def)
    then show ?thesis
      using "1.prems" False rec l3
      by (simp add: field_value.simps [of b] r3_def [symmetric] Let_def)
  qed
qed

lemma field_value_peek: "field_value b = (v, r) \<Longrightarrow> is_alphanum (peek r) \<or> is_lineend (peek r)"
proof (induction b arbitrary: v r rule: field_value.induct)
  case (1 b)
  define r3 where "r3 = drop_eol (dropWhile in_line b)"
  show ?case
  proof (cases "is_alphanum (peek r3) \<or> is_lineend (peek (dropWhile is_space r3))")
    case True
    then show ?thesis
      using "1.prems"
      by (auto simp: field_value.simps [of b] r3_def [symmetric] Let_def split: if_splits)
  next
    case False
    obtain v' r' where rec: "field_value r3 = (v', r')" by (cases "field_value r3")
    have "is_alphanum (peek r') \<or> is_lineend (peek r')"
      using "1.IH" [OF refl refl _ refl _ rec [unfolded r3_def]] False
      by (simp add: r3_def)
    then show ?thesis
      using "1.prems" False rec
      by (simp add: field_value.simps [of b] r3_def [symmetric] Let_def)
  qed
qed

lemma value_start_length:
  "peek (dropWhile name_char p) = CHR '':'' \<Longrightarrow> length (value_start p) < length p"
proof -
  assume "peek (dropWhile name_char p) = CHR '':''"
  then have "dropWhile name_char p \<noteq> []"
    by (auto simp del: dropWhile_eq_Nil_conv)
  then have "length (tl (dropWhile name_char p)) < length (dropWhile name_char p)"
    by simp
  with length_dropWhile_le [of name_char p]
    length_dropWhile_le [of is_space "tl (dropWhile name_char p)"]
  show ?thesis by (simp add: value_start_def)
qed

lemma get_paragraph_loop_sync:
  "get_paragraph_loop (peek p) p fs =
     (if peek (dropWhile name_char p) \<noteq> CHR '':'' then Inl MalformedFieldName
      else if find_field fs (takeWhile name_char p) \<noteq> None then Inl DuplicateField
      else
        case field_value (value_start p) of (v, r) \<Rightarrow>
        if \<not> is_lineend (peek r)
        then get_paragraph_loop (peek r) r (emplace fs (takeWhile name_char p) v)
        else Inr (peek r, emplace fs (takeWhile name_char p) v, r))"
proof (cases "peek (dropWhile name_char p) = CHR '':''")
  case False
  then have "get_fieldname (peek p) p = Inl MalformedFieldName"
    by (simp add: get_fieldname_sync)
  from get_paragraph_loop_error [OF this] False show ?thesis by simp
next
  case True
  obtain v r where fv: "field_value (value_start p) = (v, r)"
    by (cases "field_value (value_start p)")
  have fn: "get_fieldname (peek p) p =
      Inr (peek (value_start p), takeWhile name_char p, value_start p)"
    using True by (simp add: get_fieldname_sync value_start_def)
  have gv: "get_fieldvalue (peek (value_start p)) (value_start p) = (peek r, v, r)"
    by (simp add: get_fieldvalue_sync fv)
  from get_paragraph_loop_step [OF fn gv, of fs] True fv show ?thesis by simp
qed

lemma paragraph_induct [case_names step]:
  assumes "\<And>p fs.
     (\<And>v r. peek (dropWhile name_char p) = CHR '':''
        \<Longrightarrow> find_field fs (takeWhile name_char p) = None
        \<Longrightarrow> field_value (value_start p) = (v, r)
        \<Longrightarrow> \<not> is_lineend (peek r)
        \<Longrightarrow> P r (emplace fs (takeWhile name_char p) v))
     \<Longrightarrow> P p fs"
  shows "P p fs"
proof (induction "length p" arbitrary: p fs rule: less_induct)
  case (less p fs)
  show ?case
  proof (rule assms)
    fix v r
    assume "peek (dropWhile name_char p) = CHR '':''" and "field_value (value_start p) = (v, r)"
    then have "length r < length p"
      using value_start_length [of p] field_value_length [of "value_start p" v r] by simp
    then show "P r (emplace fs (takeWhile name_char p) v)"
      by (rule less)
  qed
qed

lemma get_paragraph_loop_peek:
  "get_paragraph_loop (peek p) p fs = Inr (ch', fs', r) \<Longrightarrow> ch' = peek r"
proof (induction p fs rule: paragraph_induct)
  case (step p fs)
  obtain v q where fv: "field_value (value_start p) = (v, q)"
    by (cases "field_value (value_start p)")
  show ?case
  proof (cases "is_lineend (peek q)")
    case True
    with step.prems fv show ?thesis
      by (auto simp: get_paragraph_loop_sync [of p fs] split: if_splits)
  next
    case False
    with step.prems fv show ?thesis
      using step.IH [OF _ _ fv False]
      by (auto simp: get_paragraph_loop_sync [of p fs] split: if_splits)
  qed
qed

lemma get_paragraph_loop_shorter:
  "get_paragraph_loop (peek p) p fs = Inr (ch', fs', r) \<Longrightarrow> peek p \<noteq> NUL \<Longrightarrow> length r < length p"
  using get_paragraph_loop_progress [of "peek p" p fs ch' fs' r] by (cases p) auto

lemma get_paragraphs_loop_sync:
  "get_paragraphs_loop (peek p) p acc =
     (if peek p = NUL then Inr acc
      else if is_blank (peek p) then get_paragraphs_loop (peek (tl p)) (tl p) acc
      else
        case get_paragraph_loop (peek p) p [] of
          Inl e \<Rightarrow> Inl e
        | Inr (ch', fs, r) \<Rightarrow> get_paragraphs_loop (peek r) r (acc @ [fs]))"
proof (cases "peek p = NUL \<or> is_blank (peek p)")
  case True
  then show ?thesis
    by (cases p) (auto simp: get_paragraphs_loop.simps [of _ _ acc] is_blank_def)
next
  case False
  show ?thesis
  proof (cases "get_paragraph_loop (peek p) p []")
    case (Inl e)
    with False show ?thesis
      by (simp add: get_paragraphs_loop.simps [of "peek p" p acc] is_blank_def get_paragraph_def)
  next
    case (Inr x)
    obtain ch' fs r where x: "x = (ch', fs, r)" by (cases x)
    have "ch' = peek r"
      using Inr x get_paragraph_loop_peek by simp
    with False Inr x show ?thesis
      by (simp add: get_paragraphs_loop.simps [of "peek p" p acc] is_blank_def get_paragraph_def)
  qed
qed

lemma document_induct [case_names step]:
  assumes "\<And>p acc.
     (peek p \<noteq> NUL \<Longrightarrow> is_blank (peek p) \<Longrightarrow> P (tl p) acc)
     \<Longrightarrow> (\<And>ch' fs r. peek p \<noteq> NUL \<Longrightarrow> \<not> is_blank (peek p)
           \<Longrightarrow> get_paragraph_loop (peek p) p [] = Inr (ch', fs, r) \<Longrightarrow> P r (acc @ [fs]))
     \<Longrightarrow> P p acc"
  shows "P p acc"
proof (induction "length p" arbitrary: p acc rule: less_induct)
  case (less p acc)
  show ?case
  proof (rule assms)
    assume "peek p \<noteq> NUL"
    then have "length (tl p) < length p" by (cases p) auto
    then show "P (tl p) acc" by (rule less)
  next
    fix ch' fs r
    assume "peek p \<noteq> NUL" and "get_paragraph_loop (peek p) p [] = Inr (ch', fs, r)"
    then have "length r < length p"
      using get_paragraph_loop_shorter by simp
    then show "P r (acc @ [fs])" by (rule less)
  qed
qed

lemma parse_paragraphs_sync: "parse_paragraphs s = get_paragraphs_loop (peek s) s []"
  by (simp add: parse_paragraphs_def get_paragraphs_def)

lemma drop_eol_suffix: "suffix (drop_eol r) r"
  by (cases r) (auto simp: drop_eol_def Let_def suffix_ConsI intro: suffix_tl suffix_order.trans)

lemma field_value_suffix: "field_value b = (v, r) \<Longrightarrow> suffix r b"
proof (induction b arbitrary: v r rule: field_value.induct)
  case (1 b)
  define r3 where "r3 = drop_eol (dropWhile in_line b)"
  have s3: "suffix r3 b"
    using drop_eol_suffix [of "dropWhile in_line b"] suffix_dropWhile [of in_line b]
    by (auto simp: r3_def intro: suffix_order.trans)
  show ?case
  proof (cases "is_alphanum (peek r3) \<or> is_lineend (peek (dropWhile is_space r3))")
    case True
    then show ?thesis
      using "1.prems" s3 suffix_dropWhile [of is_space r3]
      by (auto simp: field_value.simps [of b] r3_def [symmetric] Let_def
          split: if_splits intro: suffix_order.trans)
  next
    case False
    obtain v' r' where rec: "field_value r3 = (v', r')" by (cases "field_value r3")
    have "suffix r' r3"
      using "1.IH" [OF refl refl _ refl _ rec [unfolded r3_def]] False
      by (simp add: r3_def)
    then show ?thesis
      using "1.prems" False rec s3
      by (auto simp: field_value.simps [of b] r3_def [symmetric] Let_def intro: suffix_order.trans)
  qed
qed

lemma value_start_suffix: "suffix (value_start p) p"
proof -
  have "suffix (value_start p) (tl (dropWhile name_char p))"
    by (simp add: value_start_def suffix_dropWhile)
  also have "suffix \<dots> (dropWhile name_char p)" by (rule suffix_tl)
  also have "suffix \<dots> p" by (rule suffix_dropWhile)
  finally show ?thesis .
qed

lemma get_paragraph_loop_suffix:
  "get_paragraph_loop (peek p) p fs = Inr (ch', fs', r) \<Longrightarrow> suffix r p"
proof (induction p fs rule: paragraph_induct)
  case (step p fs)
  obtain v q where fv: "field_value (value_start p) = (v, q)"
    by (cases "field_value (value_start p)")
  have sq: "suffix q p"
    using field_value_suffix [OF fv] value_start_suffix [of p] by (rule suffix_order.trans)
  show ?case
  proof (cases "is_lineend (peek q)")
    case True
    with step.prems fv sq show ?thesis
      by (auto simp: get_paragraph_loop_sync [of p fs] split: if_splits)
  next
    case False
    with step.prems fv have "suffix r q"
      using step.IH [OF _ _ fv False]
      by (auto simp: get_paragraph_loop_sync [of p fs] split: if_splits)
    then show ?thesis using sq by (rule suffix_order.trans)
  qed
qed

lemma get_paragraphs_loop_NUL: "get_paragraphs_loop NUL p acc = Inr acc"
  by (simp add: get_paragraphs_loop.simps [of NUL])

lemma get_paragraphs_loop_blank:
  "is_blank c \<Longrightarrow> get_paragraphs_loop c (c # q) acc = get_paragraphs_loop (peek q) q acc"
  using get_paragraphs_loop_sync [of "c # q" acc] by (auto simp: is_blank_def)

section \<open>Where the fields of a parsed document come from\<close>

text \<open>
  Every entry of a returned paragraph was read at some position of the input: its name is
  the run of name characters there, which a \<open>':'\<close> follows, and its value is what
  \<open>field_value\<close> reads after the colon and the whitespace behind it (\<open>field_at\<close>). All
  fields but the first of a paragraph start on an alphanumeric character.
\<close>

definition field_at :: "string \<Rightarrow> string \<times> string \<Rightarrow> bool" where
  "field_at q e \<longleftrightarrow>
     peek (dropWhile name_char q) = CHR '':''
     \<and> e = (takeWhile name_char q, fst (field_value (value_start q)))"

definition fields_from :: "string \<Rightarrow> fieldmap \<Rightarrow> bool" where
  "fields_from p pg \<longleftrightarrow>
     (\<exists>e es. pg = e # es
        \<and> (\<exists>q. suffix q p \<and> field_at q e)
        \<and> (\<forall>e'\<in>set es. \<exists>q. suffix q p \<and> is_alphanum (peek q) \<and> field_at q e'))
     \<and> distinct (map fst pg)"

lemma fields_from_mono:
  assumes "suffix p' p" and "fields_from p' pg"
  shows "fields_from p pg"
proof -
  have up: "suffix q p" if "suffix q p'" for q
    using that assms(1) by (rule suffix_order.trans)
  from assms(2) obtain e es q where pg: "pg = e # es" "distinct (map fst pg)"
    and e: "suffix q p'" "field_at q e"
    and es: "\<forall>e'\<in>set es. \<exists>q. suffix q p' \<and> is_alphanum (peek q) \<and> field_at q e'"
    unfolding fields_from_def by blast
  have "\<forall>e'\<in>set es. \<exists>q. suffix q p \<and> is_alphanum (peek q) \<and> field_at q e'"
    using es up by blast
  moreover have "\<exists>q. suffix q p \<and> field_at q e"
    using e up by blast
  ultimately show ?thesis
    unfolding fields_from_def using pg by blast
qed

lemma emplace_new: "find_field fs nm = None \<Longrightarrow> emplace fs nm v = fs @ [(nm, v)]"
  by (simp add: emplace_def)

lemma find_field_None: "find_field fs nm = None \<longleftrightarrow> nm \<notin> fst ` set fs"
  by (simp add: find_field_def map_of_eq_None_iff)

lemma get_paragraph_loop_entries:
  "get_paragraph_loop (peek p) p fs = Inr (ch', fs', r)
   \<Longrightarrow> \<exists>e es. fs' = fs @ e # es \<and> field_at p e
        \<and> (\<forall>e'\<in>set es. \<exists>q. suffix q p \<and> is_alphanum (peek q) \<and> field_at q e')"
proof (induction p fs rule: paragraph_induct)
  case (step p fs)
  obtain v q where fv: "field_value (value_start p) = (v, q)"
    by (cases "field_value (value_start p)")
  have colon: "peek (dropWhile name_char p) = CHR '':''"
    and fresh: "find_field fs (takeWhile name_char p) = None"
    using step.prems by (auto simp: get_paragraph_loop_sync [of p fs] split: if_splits)
  define e where "e = (takeWhile name_char p, v)"
  have e: "field_at p e"
    using colon fv by (simp add: field_at_def e_def)
  have em: "emplace fs (takeWhile name_char p) v = fs @ [e]"
    using fresh by (simp add: emplace_new e_def)
  show ?case
  proof (cases "is_lineend (peek q)")
    case True
    then have "fs' = fs @ [e]"
      using step.prems fv colon fresh em by (simp add: get_paragraph_loop_sync [of p fs])
    with e show ?thesis by auto
  next
    case False
    then have run: "get_paragraph_loop (peek q) q (fs @ [e]) = Inr (ch', fs', r)"
      using step.prems fv colon fresh em by (simp add: get_paragraph_loop_sync [of p fs])
    from step.IH [OF colon fresh fv False, unfolded em, OF run]
    obtain e2 es2 where fs': "fs' = (fs @ [e]) @ e2 # es2" and e2: "field_at q e2"
      and es2: "\<forall>e'\<in>set es2. \<exists>q'. suffix q' q \<and> is_alphanum (peek q') \<and> field_at q' e'"
      by blast
    have sq: "suffix q p"
      using field_value_suffix [OF fv] value_start_suffix [of p] by (rule suffix_order.trans)
    have aq: "is_alphanum (peek q)"
      using field_value_peek [OF fv] False by simp
    have "\<forall>e'\<in>set (e2 # es2). \<exists>q'. suffix q' p \<and> is_alphanum (peek q') \<and> field_at q' e'"
      using e2 es2 sq aq by (auto intro: suffix_order.trans)
    with fs' e show ?thesis
      by (intro exI [of _ e] exI [of _ "e2 # es2"]) simp
  qed
qed

lemma get_paragraph_loop_distinct:
  "get_paragraph_loop (peek p) p fs = Inr (ch', fs', r)
   \<Longrightarrow> distinct (map fst fs) \<Longrightarrow> distinct (map fst fs')"
proof (induction p fs rule: paragraph_induct)
  case (step p fs)
  obtain v q where fv: "field_value (value_start p) = (v, q)"
    by (cases "field_value (value_start p)")
  have colon: "peek (dropWhile name_char p) = CHR '':''"
    and fresh: "find_field fs (takeWhile name_char p) = None"
    using step.prems(1) by (auto simp: get_paragraph_loop_sync [of p fs] split: if_splits)
  have em: "emplace fs (takeWhile name_char p) v = fs @ [(takeWhile name_char p, v)]"
    using fresh by (simp add: emplace_new)
  have d: "distinct (map fst (emplace fs (takeWhile name_char p) v))"
    using step.prems(2) fresh by (auto simp: em find_field_None)
  show ?case
  proof (cases "is_lineend (peek q)")
    case True
    then show ?thesis
      using step.prems(1) fv colon fresh d by (simp add: get_paragraph_loop_sync [of p fs])
  next
    case False
    then have "get_paragraph_loop (peek q) q (emplace fs (takeWhile name_char p) v) = Inr (ch', fs', r)"
      using step.prems(1) fv colon fresh by (simp add: get_paragraph_loop_sync [of p fs])
    from step.IH [OF colon fresh fv False this d] show ?thesis .
  qed
qed

lemma get_paragraph_fields_from:
  assumes "get_paragraph_loop (peek p) p [] = Inr (ch', fs, r)"
  shows "fields_from p fs"
proof -
  from get_paragraph_loop_entries [OF assms]
  obtain e es where "fs = e # es" "field_at p e"
    "\<forall>e'\<in>set es. \<exists>q. suffix q p \<and> is_alphanum (peek q) \<and> field_at q e'"
    by auto
  moreover have "distinct (map fst fs)"
    using get_paragraph_loop_distinct [OF assms] by simp
  ultimately show ?thesis
    unfolding fields_from_def by blast
qed

lemma get_paragraphs_loop_fields_from:
  "get_paragraphs_loop (peek p) p acc = Inr doc
   \<Longrightarrow> \<exists>new. doc = acc @ new \<and> (\<forall>pg\<in>set new. fields_from p pg)"
proof (induction p acc rule: document_induct)
  case (step p acc)
  note sync = get_paragraphs_loop_sync [of p acc]
  show ?case
  proof (cases "peek p = NUL")
    case True
    with step.prems sync show ?thesis by simp
  next
    case nn: False
    show ?thesis
    proof (cases "is_blank (peek p)")
      case True
      with nn step.prems sync have "get_paragraphs_loop (peek (tl p)) (tl p) acc = Inr doc"
        by simp
      from step.IH(1) [OF nn True this]
      obtain new where "doc = acc @ new" "\<forall>pg\<in>set new. fields_from (tl p) pg" by blast
      then show ?thesis
        using fields_from_mono [OF suffix_tl [of p]] by blast
    next
      case False
      from nn False step.prems sync
      obtain ch' fs r where para: "get_paragraph_loop (peek p) p [] = Inr (ch', fs, r)"
        and rest: "get_paragraphs_loop (peek r) r (acc @ [fs]) = Inr doc"
        by (auto split: sum.splits)
      from step.IH(2) [OF nn False para rest]
      obtain new where new: "doc = (acc @ [fs]) @ new" "\<forall>pg\<in>set new. fields_from r pg" by blast
      have "suffix r p"
        using para by (rule get_paragraph_loop_suffix)
      then have "\<forall>pg\<in>set (fs # new). fields_from p pg"
        using new(2) get_paragraph_fields_from [OF para] fields_from_mono by auto
      with new(1) show ?thesis
        by (intro exI [of _ "fs # new"]) simp
    qed
  qed
qed

lemma parse_paragraphs_fields_from:
  "parse_paragraphs s = Inr doc \<Longrightarrow> pg \<in> set doc \<Longrightarrow> fields_from s pg"
  using get_paragraphs_loop_fields_from [of s "[]" doc] by (auto simp: parse_paragraphs_sync)

fun joins_ok :: "string \<Rightarrow> bool" where
  "joins_ok [] = True"
| "joins_ok (c # s) = ((c = LF \<longrightarrow> in_line (peek s)) \<and> joins_ok s)"

lemma joins_ok_append_line: "LF \<notin> set xs \<Longrightarrow> joins_ok (xs @ ys) = joins_ok ys"
  by (induction xs) auto

lemma joins_ok_line: "LF \<notin> set xs \<Longrightarrow> joins_ok xs"
  using joins_ok_append_line [of xs "[]"] by simp

lemma joins_ok_split: "joins_ok (pre @ LF # post) \<Longrightarrow> in_line (peek post)"
  by (induction pre) auto

lemma in_line_peek_dropWhile: "in_line (peek (dropWhile is_space r)) \<Longrightarrow> in_line (peek r)"
  by (cases r) (auto simp: is_space_in_line split: if_splits)

lemma in_line_peek_takeWhile: "in_line (peek b) \<Longrightarrow> in_line (peek (takeWhile in_line b @ w))"
  by (cases b) auto

lemma field_value_chars:
  "field_value b = (v, r) \<Longrightarrow>
     (\<forall>c\<in>set v. in_line c \<or> c = LF) \<and> joins_ok v \<and> (in_line (peek b) \<longrightarrow> in_line (peek v))"
proof (induction b arbitrary: v r rule: field_value.induct)
  case (1 b)
  define line where "line = takeWhile in_line b"
  define r3 where "r3 = drop_eol (dropWhile in_line b)"
  have line: "\<forall>c\<in>set line. in_line c" "LF \<notin> set line"
    by (auto simp: line_def dest: set_takeWhileD)
  have first: "in_line (peek b) \<longrightarrow> in_line (peek (line @ w))" for w
    by (simp add: line_def in_line_peek_takeWhile)
  show ?case
  proof (cases "is_alphanum (peek r3) \<or> is_lineend (peek (dropWhile is_space r3))")
    case True
    then have "v = line"
      using "1.prems"
      by (auto simp: field_value.simps [of b] r3_def [symmetric] line_def Let_def split: if_splits)
    then show ?thesis
      using line first [of "[]"] by (simp add: joins_ok_line)
  next
    case False
    obtain v' r' where rec: "field_value r3 = (v', r')" by (cases "field_value r3")
    have v: "v = line @ LF # v'"
      using "1.prems" False rec
      by (simp add: field_value.simps [of b] r3_def [symmetric] line_def Let_def)
    have "in_line (peek (dropWhile is_space r3))"
      using False by (simp add: in_line_def)
    then have "in_line (peek r3)"
      by (rule in_line_peek_dropWhile)
    moreover have "(\<forall>c\<in>set v'. in_line c \<or> c = LF) \<and> joins_ok v' \<and> (in_line (peek r3) \<longrightarrow> in_line (peek v'))"
      using "1.IH" [OF refl refl _ refl _ rec [unfolded r3_def]] False
      by (simp add: r3_def)
    ultimately show ?thesis
      using line first [of "LF # v'"] by (auto simp: v joins_ok_append_line)
  qed
qed

lemma field_value_no_CR: "field_value b = (v, r) \<Longrightarrow> CR \<notin> set v"
  using field_value_chars [of b v r] by auto

lemma field_value_no_NUL: "field_value b = (v, r) \<Longrightarrow> NUL \<notin> set v"
  using field_value_chars [of b v r] by auto

lemma field_value_joins:
  assumes "field_value b = (v, r)" and "v = pre @ LF # post"
  shows "post \<noteq> [] \<and> \<not> is_lineend (hd post)"
proof -
  have "joins_ok (pre @ LF # post)"
    using field_value_chars [OF assms(1)] assms(2) by simp
  then have "in_line (peek post)"
    by (rule joins_ok_split)
  then show ?thesis
    by (cases post) (auto simp: in_line_def)
qed

lemma field_value_last:
  assumes "field_value b = (v, r)" and "v \<noteq> []"
  shows "\<not> is_lineend (last v)"
proof -
  have "last v \<in> set v" using assms(2) by simp
  then have "in_line (last v) \<or> last v = LF"
    using field_value_chars [OF assms(1)] by blast
  moreover have "last v \<noteq> LF"
  proof
    assume "last v = LF"
    then have "v = butlast v @ LF # []"
      using assms(2) append_butlast_last_id [of v] by simp
    from field_value_joins [OF assms(1) this] show False by simp
  qed
  ultimately show ?thesis by (simp add: in_line_def)
qed

lemma fields_from_entry:
  assumes "fields_from s pg" and "e \<in> set pg"
  shows "\<exists>q. suffix q s \<and> field_at q e"
  using assms unfolding fields_from_def by (elim conjE exE) (auto; blast)

lemma field_at_name:
  assumes "field_at q (nm, v)" and "suffix q s"
  shows "(\<forall>c\<in>set nm. is_alphanum c \<or> c = CHR ''-'') \<and> (\<exists>pre post. s = pre @ nm @ CHR '':'' # post)"
proof -
  have nm: "nm = takeWhile name_char q" and colon: "peek (dropWhile name_char q) = CHR '':''"
    using assms(1) by (simp_all add: field_at_def)
  obtain post where post: "dropWhile name_char q = CHR '':'' # post"
    using colon by (cases "dropWhile name_char q") (simp_all del: dropWhile_eq_Nil_conv)
  obtain pre where "s = pre @ q"
    using assms(2) by (auto simp: suffix_def)
  then have "s = pre @ nm @ CHR '':'' # post"
    using post nm takeWhile_dropWhile_id [of name_char q] by simp
  moreover have "\<forall>c\<in>set nm. is_alphanum c \<or> c = CHR ''-''"
    using nm by (auto dest: set_takeWhileD simp: name_char_def)
  ultimately show ?thesis by blast
qed

lemma field_at_name_later:
  assumes "field_at q (nm, v)" and "is_alphanum (peek q)"
  shows "nm \<noteq> [] \<and> is_alphanum (hd nm)"
  using assms by (cases q) (auto simp: field_at_def name_char_def)

section \<open>Documents written out line by line\<close>

text \<open>
  To state what the parser does on an input, the input is described by its parts: a field
  is a name, the whitespace after the colon, a first line and continuation lines, each line
  with its terminator; a paragraph is a list of fields and the blank text that follows it.
  \<open>render_doc\<close> writes the description out as text and \<open>doc_value\<close> is the document
  it stands for.
\<close>

text \<open>
  \<open>f_name\<close> is the field name, \<open>f_pad\<close> the spaces and tabs after the colon,
  \<open>f_line\<close> and \<open>f_eol\<close> the first line of the value and its terminator, and
  \<open>f_more\<close> the continuation lines, each with its terminator.
\<close>

record field_text =
  f_name :: string
  f_pad :: string
  f_line :: string
  f_eol :: string
  f_more :: "(string \<times> string) list"

text \<open>
  A line ends with \<open>"\n"\<close> or \<open>"\r\n"\<close>. A continuation line has no line terminator
  inside, does not start with an alphanumeric character (it would start a field) and has a
  character other than space and tab (it would end the paragraph). A well-formed field has a
  name of name characters that starts with an alphanumeric one, and a first line that does not
  start with whitespace (that whitespace belongs to \<open>f_pad\<close>). A well-formed paragraph has
  at least one field, distinct names, and is followed by blank text that holds a line
  terminator.
\<close>

definition is_eol :: "string \<Rightarrow> bool" where
  "is_eol e \<longleftrightarrow> e = [LF] \<or> e = [CR, LF]"

definition cont_line :: "string \<Rightarrow> bool" where
  "cont_line l \<longleftrightarrow>
     (\<forall>c\<in>set l. \<not> is_lineend c) \<and> \<not> is_alphanum (peek l) \<and> (\<exists>c\<in>set l. \<not> is_space c)"

definition wf_field :: "field_text \<Rightarrow> bool" where
  "wf_field f \<longleftrightarrow>
     is_alphanum (peek (f_name f)) \<and> (\<forall>c\<in>set (f_name f). is_alphanum c \<or> c = CHR ''-'')
     \<and> (\<forall>c\<in>set (f_pad f). is_space c)
     \<and> (\<forall>c\<in>set (f_line f). \<not> is_lineend c) \<and> \<not> is_space (peek (f_line f))
     \<and> is_eol (f_eol f)
     \<and> (\<forall>(l, e)\<in>set (f_more f). cont_line l \<and> is_eol e)"

definition lines_text :: "(string \<times> string) list \<Rightarrow> string" where
  "lines_text ls = concat (map (\<lambda>(l, e). l @ e) ls)"

definition lines_value :: "(string \<times> string) list \<Rightarrow> string" where
  "lines_value ls = concat (map (\<lambda>(l, e). LF # l) ls)"

definition render_field :: "field_text \<Rightarrow> string" where
  "render_field f =
     f_name f @ CHR '':'' # f_pad f @ f_line f @ f_eol f @ lines_text (f_more f)"

definition field_entry :: "field_text \<Rightarrow> string \<times> string" where
  "field_entry f = (f_name f, f_line f @ lines_value (f_more f))"

definition render_fields :: "field_text list \<Rightarrow> string" where
  "render_fields fs = concat (map render_field fs)"

definition wf_fields :: "field_text list \<Rightarrow> bool" where
  "wf_fields fs \<longleftrightarrow> (\<forall>f\<in>set fs. wf_field f) \<and> distinct (map f_name fs)"

definition blank_text :: "string \<Rightarrow> bool" where
  "blank_text w \<longleftrightarrow> (\<forall>c\<in>set w. is_blank c)"

definition wf_para :: "field_text list \<times> string \<Rightarrow> bool" where
  "wf_para pg \<longleftrightarrow>
     (case pg of (fs, sep) \<Rightarrow>
        fs \<noteq> [] \<and> wf_fields fs \<and> blank_text sep \<and> (\<exists>c\<in>set sep. \<not> is_space c))"

definition render_doc :: "(field_text list \<times> string) list \<Rightarrow> string" where
  "render_doc d = concat (map (\<lambda>(fs, sep). render_fields fs @ sep) d)"

definition doc_value :: "(field_text list \<times> string) list \<Rightarrow> fieldmap list" where
  "doc_value d = map (\<lambda>(fs, sep). map field_entry fs) d"

lemma lines_text_simps [simp]:
  "lines_text [] = []" "lines_text ((l, e) # ls) = l @ e @ lines_text ls"
  by (simp_all add: lines_text_def)

lemma lines_value_simps [simp]:
  "lines_value [] = []" "lines_value ((l, e) # ls) = LF # l @ lines_value ls"
  by (simp_all add: lines_value_def)

lemma render_fields_simps [simp]:
  "render_fields [] = []" "render_fields (f # fs) = render_field f @ render_fields fs"
  by (simp_all add: render_fields_def)

lemma render_doc_simps [simp]:
  "render_doc [] = []" "render_doc ((fs, sep) # d) = render_fields fs @ sep @ render_doc d"
  by (simp_all add: render_doc_def)

lemma is_eol_scan:
  assumes "is_eol e" and "\<forall>c\<in>set l. in_line c"
  shows "takeWhile in_line (l @ e @ w) = l" and "drop_eol (dropWhile in_line (l @ e @ w)) = w"
  using assms by (auto simp: is_eol_def drop_eol_def Let_def)

lemma cont_line_start:
  assumes "cont_line l"
  shows "\<not> is_alphanum (peek (l @ w))" and "\<not> is_lineend (peek (dropWhile is_space (l @ w)))"
proof -
  from assms obtain c where c: "c \<in> set l" "\<not> is_space c"
    by (auto simp: cont_line_def)
  then have l: "l \<noteq> []" by auto
  with assms show "\<not> is_alphanum (peek (l @ w))"
    by (simp add: cont_line_def peek_append)
  have d: "dropWhile is_space (l @ w) = dropWhile is_space l @ w"
    using c by (rule dropWhile_append1)
  have ne: "dropWhile is_space l \<noteq> []"
    using c by auto
  then have "peek (dropWhile is_space l) \<in> set l"
    using set_dropWhileD [of _ is_space l] by (cases "dropWhile is_space l") auto
  with assms ne show "\<not> is_lineend (peek (dropWhile is_space (l @ w)))"
    by (simp add: d peek_append cont_line_def del: dropWhile_eq_Nil_conv)
qed

lemma field_value_lines:
  assumes "\<forall>c\<in>set l0. \<not> is_lineend c" and "is_eol e0"
    and "\<forall>(l, e)\<in>set ls. cont_line l \<and> is_eol e"
    and "is_alphanum (peek rest) \<or> is_lineend (peek (dropWhile is_space rest))"
  shows "field_value (l0 @ e0 @ lines_text ls @ rest) =
     (l0 @ lines_value ls, if is_alphanum (peek rest) then rest else dropWhile is_space rest)"
  using assms(1-3)
proof (induction ls arbitrary: l0 e0)
  case Nil
  have "\<forall>c\<in>set l0. in_line c"
    using Nil.prems(1) by (simp add: in_line_def)
  from is_eol_scan [OF Nil.prems(2) this, of rest] assms(4) show ?case
    by (auto simp: field_value.simps [of "l0 @ e0 @ rest"] Let_def)
next
  case (Cons le ls)
  obtain l e where le: "le = (l, e)" by (cases le)
  have l: "cont_line l" "is_eol e" and ls: "\<forall>(l, e)\<in>set ls. cont_line l \<and> is_eol e"
    using Cons.prems(3) le by auto
  define w where "w = l @ e @ lines_text ls @ rest"
  have il: "\<forall>c\<in>set l0. in_line c"
    using Cons.prems(1) by (simp add: in_line_def)
  have rec: "field_value w =
      (l @ lines_value ls, if is_alphanum (peek rest) then rest else dropWhile is_space rest)"
    unfolding w_def using l ls by (intro Cons.IH) (auto simp: cont_line_def)
  have start: "\<not> is_alphanum (peek w)" "\<not> is_lineend (peek (dropWhile is_space w))"
    unfolding w_def using cont_line_start [OF l(1)] by simp_all
  have "field_value (l0 @ e0 @ w) =
      (l0 @ LF # l @ lines_value ls, if is_alphanum (peek rest) then rest else dropWhile is_space rest)"
    using is_eol_scan [OF Cons.prems(2) il, of w] start rec
    by (simp add: field_value.simps [of "l0 @ e0 @ w"] Let_def)
  then show ?case
    by (simp add: le w_def)
qed


lemma is_blank_not_alphanum: "is_blank c \<Longrightarrow> \<not> is_alphanum c"
  by (auto simp: is_blank_def)

lemma is_blank_not_name_char: "is_blank c \<Longrightarrow> \<not> name_char c"
  by (auto simp: is_blank_def)

lemma dropWhile_is_space_id: "\<not> is_space (peek w) \<Longrightarrow> dropWhile is_space w = w"
  by (cases w) auto

lemma wf_field_name:
  assumes "wf_field f"
  shows "f_name f \<noteq> []" and "is_alphanum (peek (f_name f @ w))"
    and "\<forall>c\<in>set (f_name f). name_char c"
  using assms by (auto simp: wf_field_def name_char_def peek_append)

lemma render_field_start:
  assumes "wf_field f"
  shows "is_alphanum (peek (render_field f @ rest))"
  using wf_field_name(2) [OF assms] by (simp add: render_field_def)

lemma render_fields_start:
  assumes "\<forall>f\<in>set fs. wf_field f" and "fs = [] \<longrightarrow> is_alphanum (peek rest)"
  shows "is_alphanum (peek (render_fields fs @ rest))"
  using assms render_field_start by (cases fs) auto

lemma render_field_scan:
  assumes "wf_field f"
  shows "takeWhile name_char (render_field f @ rest) = f_name f"
    and "peek (dropWhile name_char (render_field f @ rest)) = CHR '':''"
    and "value_start (render_field f @ rest) = f_line f @ f_eol f @ lines_text (f_more f) @ rest"
proof -
  let ?v = "f_line f @ f_eol f @ lines_text (f_more f) @ rest"
  have nm: "\<forall>c\<in>set (f_name f). name_char c"
    using assms by (rule wf_field_name)
  have r: "render_field f @ rest = f_name f @ CHR '':'' # f_pad f @ ?v"
    by (simp add: render_field_def)
  show "takeWhile name_char (render_field f @ rest) = f_name f"
    using nm by (simp add: r)
  have d: "dropWhile name_char (render_field f @ rest) = CHR '':'' # f_pad f @ ?v"
    using nm by (simp add: r)
  then show "peek (dropWhile name_char (render_field f @ rest)) = CHR '':''"
    by simp
  have "\<not> is_space (peek ?v)"
    using assms by (auto simp: wf_field_def is_eol_def peek_append)
  then have "dropWhile is_space ?v = ?v"
    by (rule dropWhile_is_space_id)
  moreover have "\<forall>c\<in>set (f_pad f). is_space c"
    using assms by (simp add: wf_field_def)
  ultimately show "value_start (render_field f @ rest) = ?v"
    by (simp add: value_start_def d)
qed

lemma paragraph_field:
  assumes "wf_field f" and "find_field acc (f_name f) = None"
    and "is_alphanum (peek rest) \<or> is_lineend (peek (dropWhile is_space rest))"
  shows "get_paragraph_loop (peek (render_field f @ rest)) (render_field f @ rest) acc =
     (if is_alphanum (peek rest)
      then get_paragraph_loop (peek rest) rest (acc @ [field_entry f])
      else Inr (peek (dropWhile is_space rest), acc @ [field_entry f], dropWhile is_space rest))"
proof -
  have fv: "field_value (f_line f @ f_eol f @ lines_text (f_more f) @ rest) =
      (f_line f @ lines_value (f_more f),
       if is_alphanum (peek rest) then rest else dropWhile is_space rest)"
    using assms(1,3) by (intro field_value_lines) (auto simp: wf_field_def)
  have em: "emplace acc (f_name f) (f_line f @ lines_value (f_more f)) = acc @ [field_entry f]"
    using assms(2) by (simp add: emplace_new field_entry_def)
  show ?thesis
    using assms(2,3) fv em render_field_scan [OF assms(1), of rest]
    by (auto simp: get_paragraph_loop_sync [of "render_field f @ rest"] dest: is_alphanum_in_line
        simp: in_line_def)
qed

lemma find_field_snoc:
  "find_field (acc @ [(k, v)]) k' = None \<longleftrightarrow> find_field acc k' = None \<and> k \<noteq> k'"
  by (auto simp: find_field_None)

lemma paragraph_fields:
  assumes "wf_fields fs" and "\<forall>f\<in>set fs. find_field acc (f_name f) = None"
    and "is_alphanum (peek rest)"
  shows "get_paragraph_loop (peek (render_fields fs @ rest)) (render_fields fs @ rest) acc =
     get_paragraph_loop (peek rest) rest (acc @ map field_entry fs)"
  using assms(1,2)
proof (induction fs arbitrary: acc)
  case Nil
  show ?case by simp
next
  case (Cons f fs)
  have f: "wf_field f" and fs: "wf_fields fs" and nf: "f_name f \<notin> f_name ` set fs"
    using Cons.prems(1) by (auto simp: wf_fields_def)
  have start: "is_alphanum (peek (render_fields fs @ rest))"
    using fs assms(3) by (intro render_fields_start) (auto simp: wf_fields_def)
  have fresh: "\<forall>g\<in>set fs. find_field (acc @ [field_entry f]) (f_name g) = None"
    using Cons.prems(2) nf by (auto simp: field_entry_def find_field_snoc)
  have "get_paragraph_loop (peek (render_field f @ render_fields fs @ rest))
      (render_field f @ render_fields fs @ rest) acc =
      get_paragraph_loop (peek (render_fields fs @ rest)) (render_fields fs @ rest)
        (acc @ [field_entry f])"
    using paragraph_field [OF f, of acc "render_fields fs @ rest"] Cons.prems(2) start by simp
  also have "\<dots> = get_paragraph_loop (peek rest) rest ((acc @ [field_entry f]) @ map field_entry fs)"
    using fs fresh by (rule Cons.IH)
  finally show ?case by simp
qed

lemma paragraph_fields_end:
  assumes "fs \<noteq> []" and "wf_fields fs" and "\<forall>f\<in>set fs. find_field acc (f_name f) = None"
    and "\<not> is_alphanum (peek rest)" and "is_lineend (peek (dropWhile is_space rest))"
  shows "get_paragraph_loop (peek (render_fields fs @ rest)) (render_fields fs @ rest) acc =
     Inr (peek (dropWhile is_space rest), acc @ map field_entry fs, dropWhile is_space rest)"
proof -
  define xs where "xs = butlast fs"
  define f where "f = last fs"
  have fs: "fs = xs @ [f]"
    using assms(1) by (simp add: xs_def f_def)
  have f: "wf_field f" and xs: "wf_fields xs" and nf: "f_name f \<notin> f_name ` set xs"
    using assms(2) by (auto simp: fs wf_fields_def)
  have rt: "render_fields fs @ rest = render_fields xs @ render_field f @ rest"
    by (simp add: fs render_fields_def)
  have fresh: "find_field (acc @ map field_entry xs) (f_name f) = None"
    using assms(3) nf by (force simp: fs find_field_None field_entry_def)
  have "get_paragraph_loop (peek (render_fields fs @ rest)) (render_fields fs @ rest) acc =
      get_paragraph_loop (peek (render_field f @ rest)) (render_field f @ rest)
        (acc @ map field_entry xs)"
    unfolding rt using xs assms(3) render_field_start [OF f]
    by (intro paragraph_fields) (auto simp: fs)
  also have "\<dots> = Inr (peek (dropWhile is_space rest), (acc @ map field_entry xs) @ [field_entry f],
      dropWhile is_space rest)"
    using paragraph_field [OF f fresh, of rest] assms(4,5) by simp
  finally show ?thesis by (simp add: fs)
qed

lemma document_skip:
  "blank_text w \<Longrightarrow>
   get_paragraphs_loop (peek (w @ rest)) (w @ rest) acc = get_paragraphs_loop (peek rest) rest acc"
  by (induction w) (simp_all add: blank_text_def get_paragraphs_loop_blank)

lemma blank_text_end:
  assumes "blank_text w"
  shows "\<not> is_alphanum (peek (w @ rest)) \<or> w = []"
    and "blank_text (dropWhile is_space w)"
    and "dropWhile is_space w \<noteq> [] \<Longrightarrow> is_lineend (peek (dropWhile is_space w @ rest))"
proof -
  show "\<not> is_alphanum (peek (w @ rest)) \<or> w = []"
    using assms by (cases w) (auto simp: blank_text_def is_blank_not_alphanum)
  show "blank_text (dropWhile is_space w)"
    using assms by (auto simp: blank_text_def dest: set_dropWhileD)
  assume ne: "dropWhile is_space w \<noteq> []"
  then obtain c q where cq: "dropWhile is_space w = c # q"
    by (cases "dropWhile is_space w") auto
  have "\<not> is_space c"
    using hd_dropWhile [OF ne] cq by simp
  moreover have "is_blank c"
    using assms cq set_dropWhileD [of c is_space w] by (simp add: blank_text_def)
  ultimately show "is_lineend (peek (dropWhile is_space w @ rest))"
    by (auto simp: cq is_blank_def is_space_def)
qed

lemma document_para:
  assumes "wf_para (fs, sep)"
  shows "get_paragraphs_loop (peek (render_fields fs @ sep @ rest)) (render_fields fs @ sep @ rest) acc =
     get_paragraphs_loop (peek rest) rest (acc @ [map field_entry fs])"
proof -
  have fs: "fs \<noteq> []" "wf_fields fs" and sep: "blank_text sep" "\<exists>c\<in>set sep. \<not> is_space c"
    using assms by (auto simp: wf_para_def)
  define r where "r = dropWhile is_space sep"
  have r: "dropWhile is_space (sep @ rest) = r @ rest" "r \<noteq> []"
    using sep(2) by (auto simp: r_def)
  have na: "\<not> is_alphanum (peek (sep @ rest))"
    using blank_text_end(1) [OF sep(1), of rest] sep(2) by auto
  have le: "is_lineend (peek (dropWhile is_space (sep @ rest)))"
    using blank_text_end(3) [OF sep(1), of rest] r by (simp add: r_def)
  have para: "get_paragraph_loop (peek (render_fields fs @ sep @ rest)) (render_fields fs @ sep @ rest) [] =
      Inr (peek (r @ rest), map field_entry fs, r @ rest)"
    using paragraph_fields_end [OF fs, of "[]" "sep @ rest"] na le r
    by (simp add: find_field_def)
  have start: "is_alphanum (peek (render_fields fs @ sep @ rest))"
    using fs by (intro render_fields_start) (auto simp: wf_fields_def)
  then have "peek (render_fields fs @ sep @ rest) \<noteq> NUL"
    and "\<not> is_blank (peek (render_fields fs @ sep @ rest))"
    using is_blank_not_alphanum by auto
  then have "get_paragraphs_loop (peek (render_fields fs @ sep @ rest)) (render_fields fs @ sep @ rest) acc =
      get_paragraphs_loop (peek (r @ rest)) (r @ rest) (acc @ [map field_entry fs])"
    using para by (simp add: get_paragraphs_loop_sync [of "render_fields fs @ sep @ rest"])
  also have "\<dots> = get_paragraphs_loop (peek rest) rest (acc @ [map field_entry fs])"
    using blank_text_end(2) [OF sep(1)] by (simp add: r_def document_skip)
  finally show ?thesis .
qed

lemma document_paras:
  "\<forall>pg\<in>set d. wf_para pg \<Longrightarrow>
   get_paragraphs_loop (peek (render_doc d @ rest)) (render_doc d @ rest) acc =
     get_paragraphs_loop (peek rest) rest (acc @ doc_value d)"
proof (induction d arbitrary: acc)
  case Nil
  show ?case by (simp add: doc_value_def)
next
  case (Cons pg d)
  obtain fs sep where pg: "pg = (fs, sep)" by (cases pg)
  have "wf_para (fs, sep)" using Cons.prems pg by simp
  from document_para [OF this, of "render_doc d @ rest" acc] Cons.IH [of "acc @ [map field_entry fs]"]
    Cons.prems
  show ?case by (simp add: pg doc_value_def)
qed

lemma parse_paragraphs_prefix:
  assumes "blank_text lead" and "\<forall>pg\<in>set d. wf_para pg"
  shows "parse_paragraphs (lead @ render_doc d @ rest) =
     get_paragraphs_loop (peek rest) rest (doc_value d)"
  using document_skip [OF assms(1), of "render_doc d @ rest" "[]"]
    document_paras [OF assms(2), of rest "[]"]
  by (simp add: parse_paragraphs_sync)

lemma blank_text_tail:
  assumes "blank_text tail"
  shows "\<not> is_alphanum (peek tail)" and "is_lineend (peek (dropWhile is_space tail))"
proof -
  show "\<not> is_alphanum (peek tail)"
    using blank_text_end(1) [OF assms, of "[]"] by auto
  show "is_lineend (peek (dropWhile is_space tail))"
  proof (cases "dropWhile is_space tail")
    case Nil
    then show ?thesis by (simp only: peek_Nil is_lineend_simps)
  next
    case (Cons c q)
    then have "dropWhile is_space tail \<noteq> []" by (simp del: dropWhile_eq_Nil_conv)
    from blank_text_end(3) [OF assms this, of "[]"] show ?thesis by simp
  qed
qed

lemma parse_paragraphs_last:
  assumes "blank_text lead" and "\<forall>pg\<in>set d. wf_para pg"
    and "fs \<noteq> []" and "wf_fields fs" and "blank_text tail"
  shows "parse_paragraphs (lead @ render_doc d @ render_fields fs @ tail) =
     Inr (doc_value d @ [map field_entry fs])"
proof -
  let ?t = "render_fields fs @ tail"
  define r where "r = dropWhile is_space tail"
  have para: "get_paragraph_loop (peek ?t) ?t [] = Inr (peek r, map field_entry fs, r)"
    using paragraph_fields_end [OF assms(3,4), of "[]" tail] blank_text_tail [OF assms(5)]
    by (simp add: find_field_def r_def)
  have "is_alphanum (peek ?t)"
    using assms(3,4) by (intro render_fields_start) (auto simp: wf_fields_def)
  then have "peek ?t \<noteq> NUL" and "\<not> is_blank (peek ?t)"
    using is_blank_not_alphanum by auto
  then have "get_paragraphs_loop (peek ?t) ?t (doc_value d) =
      get_paragraphs_loop (peek r) r (doc_value d @ [map field_entry fs])"
    using para by (simp add: get_paragraphs_loop_sync [of ?t])
  also have "\<dots> = Inr (doc_value d @ [map field_entry fs])"
    using document_skip [OF blank_text_end(2) [OF assms(5)], of "[]"]
    by (simp add: r_def get_paragraphs_loop_NUL)
  finally show ?thesis
    using parse_paragraphs_prefix [OF assms(1,2), of ?t] by simp
qed





lemma skip_spaces_Nil: "skip_spaces ch [] = (if ch = SPC \<or> ch = TAB then NUL else ch, [])"
  by (simp add: skip_spaces.simps [of ch "[]"] skip_spaces_NUL)

section \<open>Multi-line values\<close>

lemma field_value_first_char:
  assumes "field_value b = (v, r)" and "\<not> is_space (peek b)"
  shows "\<not> is_space (peek v)"
proof (cases b)
  case Nil
  with assms(1) show ?thesis
    by (auto simp: field_value.simps [of "[]"] Let_def split: if_splits prod.splits)
next
  case (Cons c q)
  with assms show ?thesis
    by (cases "in_line c")
      (auto simp: field_value.simps [of "c # q"] Let_def split: if_splits prod.splits)
qed

lemma value_start_first_char: "\<not> is_space (peek (value_start p))"
  unfolding value_start_def by (rule peek_dropWhile) simp

text \<open>
  The physical lines of a value, as they stand in the text. A line ends with \<open>"\n"\<close>,
  \<open>"\r\n"\<close> or \<open>"\r"\<close> (\<open>line_end\<close>). The continuation lines are listed each behind
  the terminator of the line before it, so that the last line needs none: \<open>joined_text\<close>
  is how they are written and \<open>joined_value\<close> is what is stored for them. The value stops
  (\<open>value_stops\<close>) where the line ends, at a terminator, a NUL or the end of the input,
  and what follows the terminator starts with an alphanumeric character (the next field) or
  is a blank line or the end; \<open>after_value\<close> is where the cursor is left.
\<close>

definition line_end :: "string \<Rightarrow> bool" where
  "line_end e \<longleftrightarrow> e = [LF] \<or> e = [CR, LF] \<or> e = [CR]"

definition joined_text :: "(string \<times> string) list \<Rightarrow> string" where
  "joined_text ls = concat (map (\<lambda>(e, l). e @ l) ls)"

definition joined_value :: "(string \<times> string) list \<Rightarrow> string" where
  "joined_value ls = concat (map (\<lambda>(e, l). LF # l) ls)"

definition after_value :: "string \<Rightarrow> string" where
  "after_value post =
     (if is_alphanum (peek (drop_eol post)) then drop_eol post
      else dropWhile is_space (drop_eol post))"

definition value_stops :: "string \<Rightarrow> bool" where
  "value_stops post \<longleftrightarrow>
     is_lineend (peek post)
     \<and> (is_alphanum (peek (drop_eol post))
        \<or> is_lineend (peek (dropWhile is_space (drop_eol post))))"

lemma joined_text_simps [simp]:
  "joined_text [] = []" "joined_text ((e, l) # ls) = e @ l @ joined_text ls"
  by (simp_all add: joined_text_def)

lemma joined_value_simps [simp]:
  "joined_value [] = []" "joined_value ((e, l) # ls) = LF # l @ joined_value ls"
  by (simp_all add: joined_value_def)

lemma line_end_peek: "line_end e \<Longrightarrow> is_lineend (peek (e @ w))"
  by (auto simp: line_end_def)

lemma joined_text_peek:
  assumes "\<forall>(e, l)\<in>set ls. line_end e" and "is_lineend (peek post)"
  shows "is_lineend (peek (joined_text ls @ post))"
proof (cases ls)
  case Nil
  with assms(2) show ?thesis by simp
next
  case (Cons el ls')
  obtain e l where "el = (e, l)" by (cases el)
  with assms(1) Cons show ?thesis
    using line_end_peek [of e "l @ joined_text ls' @ post"] by simp
qed

lemma scan_to_lineend:
  assumes "\<forall>c\<in>set l. \<not> is_lineend c" and "is_lineend (peek w)"
  shows "takeWhile in_line (l @ w) = l" and "dropWhile in_line (l @ w) = w"
  using assms by (cases w; auto simp: in_line_def)+

lemma cont_line_nonempty:
  assumes "cont_line l"
  shows "l \<noteq> []" and "\<not> is_lineend (peek (l @ w))"
  using assms by (cases l; auto simp: cont_line_def)+

lemma drop_eol_line_end:
  assumes "line_end e" and "peek w \<noteq> LF"
  shows "drop_eol (e @ w) = w"
  using assms by (auto simp: line_end_def drop_eol_def Let_def)

lemma drop_eol_split:
  assumes "is_lineend (peek r1)"
    and "\<not> is_lineend (peek (dropWhile is_space (drop_eol r1)))"
  shows "\<exists>e. line_end e \<and> r1 = e @ drop_eol r1"
proof (cases r1)
  case Nil
  with assms(2) show ?thesis by (simp add: drop_eol_def)
next
  case (Cons c q)
  with assms(1) have "c = CR \<or> c = LF \<or> c = NUL"
    by (simp add: is_lineend_def)
  moreover have "c \<noteq> NUL"
    using assms(2) Cons by (auto simp: drop_eol_def)
  ultimately consider "c = LF" | "c = CR" "peek q = LF" | "c = CR" "peek q \<noteq> LF"
    by blast
  then show ?thesis
  proof cases
    case 1
    then have "r1 = [LF] @ drop_eol r1"
      using Cons by (simp add: drop_eol_def)
    then show ?thesis by (intro exI [of _ "[LF]"]) (simp add: line_end_def)
  next
    case 2
    then have "r1 = [CR, LF] @ drop_eol r1"
      using Cons by (cases q) (auto simp: drop_eol_def)
    then show ?thesis by (intro exI [of _ "[CR, LF]"]) (simp add: line_end_def)
  next
    case 3
    then have "r1 = [CR] @ drop_eol r1"
      using Cons by (simp add: drop_eol_def)
    then show ?thesis by (intro exI [of _ "[CR]"]) (simp add: line_end_def)
  qed
qed

lemma field_value_compose:
  assumes "\<forall>c\<in>set l0. \<not> is_lineend c" and "\<forall>(e, l)\<in>set ls. line_end e \<and> cont_line l"
    and "value_stops post"
  shows "field_value (l0 @ joined_text ls @ post) = (l0 @ joined_value ls, after_value post)"
  using assms(1,2)
proof (induction ls arbitrary: l0)
  case Nil
  have "is_lineend (peek post)"
    using assms(3) by (simp add: value_stops_def)
  from scan_to_lineend [OF Nil.prems(1) this] assms(3) show ?case
    by (auto simp: field_value.simps [of "l0 @ post"] Let_def value_stops_def after_value_def)
next
  case (Cons el ls)
  obtain e l where el: "el = (e, l)" by (cases el)
  have e: "line_end e" and l: "cont_line l"
    and ls: "\<forall>(e, l)\<in>set ls. line_end e \<and> cont_line l"
    using Cons.prems(2) el by auto
  define w where "w = l @ joined_text ls @ post"
  have rec: "field_value w = (l @ joined_value ls, after_value post)"
    unfolding w_def using l ls by (intro Cons.IH) (auto simp: cont_line_def)
  have start: "\<not> is_alphanum (peek w)" "\<not> is_lineend (peek (dropWhile is_space w))"
    unfolding w_def using cont_line_start [OF l] by simp_all
  have "peek w \<noteq> LF"
    using cont_line_nonempty(2) [OF l, of "joined_text ls @ post"] by (auto simp: w_def)
  then have de: "drop_eol (e @ w) = w"
    using e by (intro drop_eol_line_end)
  have sc: "takeWhile in_line (l0 @ e @ w) = l0" "dropWhile in_line (l0 @ e @ w) = e @ w"
    using scan_to_lineend [OF Cons.prems(1) line_end_peek [OF e, of w]] by simp_all
  have "field_value (l0 @ e @ w) = (l0 @ LF # l @ joined_value ls, after_value post)"
    using sc de start rec by (simp add: field_value.simps [of "l0 @ e @ w"] Let_def)
  then show ?case by (simp add: el w_def)
qed

lemma field_value_decompose:
  "field_value b = (v, r) \<Longrightarrow>
   \<exists>l0 ls post. b = l0 @ joined_text ls @ post \<and> v = l0 @ joined_value ls
     \<and> (\<forall>c\<in>set l0. \<not> is_lineend c) \<and> (\<forall>(e, l)\<in>set ls. line_end e \<and> cont_line l)
     \<and> value_stops post \<and> r = after_value post"
proof (induction b arbitrary: v r rule: field_value.induct)
  case (1 b)
  define line where "line = takeWhile in_line b"
  define r1 where "r1 = dropWhile in_line b"
  define r3 where "r3 = drop_eol r1"
  have b: "b = line @ r1"
    by (simp add: line_def r1_def)
  have line: "\<forall>c\<in>set line. \<not> is_lineend c"
    by (auto simp: line_def in_line_def dest: set_takeWhileD)
  have r1: "is_lineend (peek r1)"
    using peek_dropWhile [of in_line b] by (simp add: r1_def in_line_def)
  show ?case
  proof (cases "is_alphanum (peek r3) \<or> is_lineend (peek (dropWhile is_space r3))")
    case True
    then have "v = line" and "r = after_value r1"
      using "1.prems"
      by (auto simp: field_value.simps [of b] r1_def [symmetric] r3_def [symmetric] line_def
          after_value_def Let_def split: if_splits)
    moreover have "value_stops r1"
      using True r1 by (simp add: value_stops_def r3_def)
    ultimately show ?thesis
      using b line by (intro exI [of _ line] exI [of _ "[]"] exI [of _ r1]) simp
  next
    case False
    obtain v' r' where rec: "field_value r3 = (v', r')" by (cases "field_value r3")
    have v: "v = line @ LF # v'" and r: "r = r'"
      using "1.prems" False rec
      by (simp_all add: field_value.simps [of b] r1_def [symmetric] r3_def [symmetric] line_def Let_def)
    from "1.IH" [OF refl refl _ refl _ rec [unfolded r3_def r1_def]] False
    obtain l0 ls post where d: "r3 = l0 @ joined_text ls @ post" "v' = l0 @ joined_value ls"
      "\<forall>c\<in>set l0. \<not> is_lineend c" "\<forall>(e, l)\<in>set ls. line_end e \<and> cont_line l"
      "value_stops post" "r' = after_value post"
      by (auto simp: r3_def r1_def)
    obtain e where e: "line_end e" "r1 = e @ r3"
      using drop_eol_split [OF r1] False by (auto simp: r3_def)
    have nl: "is_lineend (peek (joined_text ls @ post))"
      using d(4,5) by (intro joined_text_peek) (auto simp: value_stops_def)
    have "\<exists>c\<in>set l0. \<not> is_space c"
    proof (rule ccontr)
      assume "\<not> (\<exists>c\<in>set l0. \<not> is_space c)"
      then have "dropWhile is_space r3 = dropWhile is_space (joined_text ls @ post)"
        by (simp add: d(1))
      also have "\<dots> = joined_text ls @ post"
        using nl by (cases "joined_text ls @ post") (auto simp: is_lineend_def)
      finally show False using False nl by simp
    qed
    moreover have "\<not> is_alphanum (peek l0)"
      using False d(1) by (cases l0) auto
    ultimately have "cont_line l0"
      using d(3) by (simp add: cont_line_def)
    then have "\<forall>(e, l)\<in>set ((e, l0) # ls). line_end e \<and> cont_line l"
      using e(1) d(4) by simp
    moreover have "b = line @ joined_text ((e, l0) # ls) @ post"
      using b e(2) d(1) by simp
    moreover have "v = line @ joined_value ((e, l0) # ls)"
      using v d(2) by simp
    ultimately show ?thesis
      using line d(5,6) r
      by (intro exI [of _ line] exI [of _ "(e, l0) # ls"] exI [of _ post]) simp
  qed
qed

lemma field_at_lines:
  assumes "field_at q (nm, v)"
  shows "\<exists>pad l0 ls post.
      q = nm @ CHR '':'' # pad @ l0 @ joined_text ls @ post \<and> v = l0 @ joined_value ls
    \<and> (\<forall>c\<in>set pad. c = SPC \<or> c = TAB) \<and> peek v \<noteq> SPC \<and> peek v \<noteq> TAB
    \<and> (\<forall>c\<in>set l0. \<not> is_lineend c) \<and> (\<forall>(e, l)\<in>set ls. line_end e \<and> cont_line l)
    \<and> value_stops post"
proof -
  have nm: "nm = takeWhile name_char q" and colon: "peek (dropWhile name_char q) = CHR '':''"
    using assms by (simp_all add: field_at_def)
  obtain w where w: "dropWhile name_char q = CHR '':'' # w"
    using colon by (cases "dropWhile name_char q") (simp_all del: dropWhile_eq_Nil_conv)
  define pad where "pad = takeWhile is_space w"
  have "q = takeWhile name_char q @ dropWhile name_char q"
    by simp
  also have "\<dots> = nm @ CHR '':'' # w"
    by (simp only: nm w)
  also have "\<dots> = nm @ CHR '':'' # pad @ value_start q"
    by (simp add: pad_def value_start_def w)
  finally have q: "q = nm @ CHR '':'' # pad @ value_start q" .
  obtain r where fv: "field_value (value_start q) = (v, r)"
    using assms by (cases "field_value (value_start q)") (simp add: field_at_def)
  from field_value_decompose [OF fv]
  obtain l0 ls post where d: "value_start q = l0 @ joined_text ls @ post" "v = l0 @ joined_value ls"
    "\<forall>c\<in>set l0. \<not> is_lineend c" "\<forall>(e, l)\<in>set ls. line_end e \<and> cont_line l"
    "value_stops post"
    by blast
  have "\<not> is_space (peek v)"
    using fv value_start_first_char by (rule field_value_first_char)
  then have "peek v \<noteq> SPC" "peek v \<noteq> TAB"
    by (auto simp: is_space_def)
  moreover have "\<forall>c\<in>set pad. c = SPC \<or> c = TAB"
    by (auto simp: pad_def is_space_def dest: set_takeWhileD)
  moreover have "q = nm @ CHR '':'' # pad @ l0 @ joined_text ls @ post"
    using q d(1) by simp
  ultimately show ?thesis
    using d(2-5)
    by (intro exI [of _ pad] exI [of _ l0] exI [of _ ls] exI [of _ post]) simp
qed

lemma stored_value_lines:
  assumes "parse_paragraphs s = Inr doc" and "pg \<in> set doc" and "(nm, v) \<in> set pg"
  shows "\<exists>pre pad l0 ls post.
      s = pre @ nm @ CHR '':'' # pad @ l0 @ joined_text ls @ post \<and> v = l0 @ joined_value ls
    \<and> (\<forall>c\<in>set pad. c = SPC \<or> c = TAB) \<and> peek v \<noteq> SPC \<and> peek v \<noteq> TAB
    \<and> (\<forall>c\<in>set l0. \<not> is_lineend c) \<and> (\<forall>(e, l)\<in>set ls. line_end e \<and> cont_line l)
    \<and> value_stops post"
proof -
  from parse_paragraphs_fields_from [OF assms(1,2)] assms(3)
  obtain q where q: "suffix q s" "field_at q (nm, v)"
    using fields_from_entry by blast
  then obtain pre where pre: "s = pre @ q"
    by (auto simp: suffix_def)
  from field_at_lines [OF q(2)] show ?thesis
    apply (elim exE conjE)
    subgoal for pad l0 ls post
      by (intro exI [of _ pre] exI [of _ pad] exI [of _ l0] exI [of _ ls] exI [of _ post])
        (simp add: pre)
    done
qed

lemma get_fieldvalue_lines:
  assumes "\<forall>c\<in>set l0. \<not> is_lineend c" and "\<forall>(e, l)\<in>set ls. line_end e \<and> cont_line l"
    and "value_stops post"
  shows "get_fieldvalue (peek (l0 @ joined_text ls @ post)) (l0 @ joined_text ls @ post) =
     (peek (after_value post), l0 @ joined_value ls, after_value post)"
  using field_value_compose [OF assms] by (simp add: get_fieldvalue_sync)

text \<open>
  C1: every value stored by a successful parse is its first line and its continuation
  lines joined by a single \<open>'\n'\<close>. The field stands in the input as its name, \<open>':'\<close>,
  spaces and tabs, the first line (without a terminator inside), then for each
  continuation line a terminator and the line, and then the place where the value stops; the
  value is the first line followed by \<open>'\n'\<close> and each continuation line as written, its
  leading whitespace included, and it does not start with a space or a tab. Conversely, on
  every text of that shape \<open>get_fieldvalue\<close> returns exactly that value, whether the lines
  end with \<open>"\n"\<close>, \<open>"\r\n"\<close> or \<open>"\r"\<close> and whether or not the last line is
  terminated. And a whole document written as well-formed fields parses to the paragraphs it
  describes.
\<close>

theorem continuation_lines_joined:
  "(parse_paragraphs s = Inr doc \<and> pg \<in> set doc \<and> (nm, v) \<in> set pg \<longrightarrow>
      (\<exists>pre pad l0 ls post.
          s = pre @ nm @ CHR '':'' # pad @ l0 @ joined_text ls @ post
        \<and> v = l0 @ joined_value ls
        \<and> (\<forall>c\<in>set pad. c = SPC \<or> c = TAB) \<and> peek v \<noteq> SPC \<and> peek v \<noteq> TAB
        \<and> (\<forall>c\<in>set l0. \<not> is_lineend c)
        \<and> (\<forall>(e, l)\<in>set ls. line_end e \<and> cont_line l)
        \<and> value_stops post))
   \<and> ((\<forall>c\<in>set l1. \<not> is_lineend c) \<and> (\<forall>(e, l)\<in>set ls1. line_end e \<and> cont_line l)
        \<and> value_stops post1 \<longrightarrow>
      get_fieldvalue (peek (l1 @ joined_text ls1 @ post1)) (l1 @ joined_text ls1 @ post1) =
        (peek (after_value post1), l1 @ joined_value ls1, after_value post1))
   \<and> (blank_text lead \<and> (\<forall>pg\<in>set d. wf_para pg) \<and> fs \<noteq> [] \<and> wf_fields fs \<and> blank_text tail \<longrightarrow>
      parse_paragraphs (lead @ render_doc d @ render_fields fs @ tail) =
        Inr (doc_value d @ [map field_entry fs]))"
proof (intro conjI impI)
  assume "parse_paragraphs s = Inr doc \<and> pg \<in> set doc \<and> (nm, v) \<in> set pg"
  then show "\<exists>pre pad l0 ls post.
          s = pre @ nm @ CHR '':'' # pad @ l0 @ joined_text ls @ post
        \<and> v = l0 @ joined_value ls
        \<and> (\<forall>c\<in>set pad. c = SPC \<or> c = TAB) \<and> peek v \<noteq> SPC \<and> peek v \<noteq> TAB
        \<and> (\<forall>c\<in>set l0. \<not> is_lineend c)
        \<and> (\<forall>(e, l)\<in>set ls. line_end e \<and> cont_line l)
        \<and> value_stops post"
    using stored_value_lines [of s doc pg nm v] by simp
next
  assume "(\<forall>c\<in>set l1. \<not> is_lineend c) \<and> (\<forall>(e, l)\<in>set ls1. line_end e \<and> cont_line l)
        \<and> value_stops post1"
  then show "get_fieldvalue (peek (l1 @ joined_text ls1 @ post1)) (l1 @ joined_text ls1 @ post1) =
        (peek (after_value post1), l1 @ joined_value ls1, after_value post1)"
    by (intro get_fieldvalue_lines) simp_all
next
  assume "blank_text lead \<and> (\<forall>pg\<in>set d. wf_para pg) \<and> fs \<noteq> [] \<and> wf_fields fs \<and> blank_text tail"
  then show "parse_paragraphs (lead @ render_doc d @ render_fields fs @ tail) =
        Inr (doc_value d @ [map field_entry fs])"
    by (intro parse_paragraphs_last) simp_all
qed

lemma wf_field_example:
  "wf_field \<lparr>f_name = ''Name'', f_pad = '' '', f_line = ''foo'', f_eol = [LF],
      f_more = [('' bar'', [LF])]\<rparr>"
  by (simp add: wf_field_def cont_line_def is_eol_def is_alphanum_def is_lineend_def is_space_def)

lemma wf_field_X:
  "wf_field \<lparr>f_name = ''X'', f_pad = '' '', f_line = ''0'', f_eol = [CR, LF], f_more = []\<rparr>"
  by (simp add: wf_field_def is_eol_def is_alphanum_def is_lineend_def is_space_def)


lemma wf_para_X:
  "wf_para ([\<lparr>f_name = ''X'', f_pad = '' '', f_line = ''0'', f_eol = [CR, LF], f_more = []\<rparr>],
     '' \<newline>'')"
  by (simp add: wf_para_def wf_fields_def wf_field_X blank_text_def is_blank_def is_space_def)

lemma parse_paragraphs_unterminated:
  "parse_paragraphs ''Name: foo\<newline> bar'' = Inr [[(''Name'', ''foo\<newline> bar'')]]"
  by code_simp

lemma cont_line_bar: "cont_line '' bar''"
  by (simp add: cont_line_def is_lineend_def is_alphanum_def is_space_def)

lemma value_stops_Nil: "value_stops []" "after_value [] = []"
  by (simp_all add: value_stops_def after_value_def drop_eol_def)

theorem continuation_lines_joined_witness:
  "parse_paragraphs ''Name: foo\<newline> bar\<newline>'' = Inr [[(''Name'', ''foo\<newline> bar'')]]
   \<and> parse_paragraphs (''\<newline>X: 0'' @ [CR, LF] @ '' \<newline>Name: foo\<newline> bar\<newline>  '') =
       Inr [[(''X'', ''0'')], [(''Name'', ''foo\<newline> bar'')]]
   \<and> get_fieldvalue (CHR ''f'') (''foo'' @ [CR] @ '' bar'') = (NUL, ''foo\<newline> bar'', [])
   \<and> (\<exists>pre pad l0 ls post.
          ''Name: foo\<newline> bar'' = pre @ ''Name'' @ CHR '':'' # pad @ l0 @ joined_text ls @ post
        \<and> ''foo\<newline> bar'' = l0 @ joined_value ls
        \<and> (\<forall>c\<in>set pad. c = SPC \<or> c = TAB)
        \<and> (\<forall>c\<in>set l0. \<not> is_lineend c)
        \<and> (\<forall>(e, l)\<in>set ls. line_end e \<and> cont_line l)
        \<and> value_stops post)"
proof (intro conjI)
  show "parse_paragraphs ''Name: foo\<newline> bar\<newline>'' = Inr [[(''Name'', ''foo\<newline> bar'')]]"
    using continuation_lines_joined [where lead = "[]" and d = "[]" and tail = "[]"
        and fs = "[\<lparr>f_name = ''Name'', f_pad = '' '', f_line = ''foo'', f_eol = [LF],
           f_more = [('' bar'', [LF])]\<rparr>]"]
    by (simp add: wf_field_example wf_fields_def blank_text_def doc_value_def render_field_def
        field_entry_def)
  show "parse_paragraphs (''\<newline>X: 0'' @ [CR, LF] @ '' \<newline>Name: foo\<newline> bar\<newline>  '') =
       Inr [[(''X'', ''0'')], [(''Name'', ''foo\<newline> bar'')]]"
    using continuation_lines_joined [where lead = "''\<newline>''" and tail = "''  ''"
        and d = "[([\<lparr>f_name = ''X'', f_pad = '' '', f_line = ''0'', f_eol = [CR, LF], f_more = []\<rparr>],
           '' \<newline>'')]"
        and fs = "[\<lparr>f_name = ''Name'', f_pad = '' '', f_line = ''foo'', f_eol = [LF],
           f_more = [('' bar'', [LF])]\<rparr>]"]
    by (simp add: wf_field_example wf_para_X wf_fields_def blank_text_def is_blank_def doc_value_def
        render_field_def field_entry_def)
  show "get_fieldvalue (CHR ''f'') (''foo'' @ [CR] @ '' bar'') = (NUL, ''foo\<newline> bar'', [])"
    using continuation_lines_joined [where ?l1.0 = "''foo''" and ?ls1.0 = "[([CR], '' bar'')]" and ?post1.0 = "[]"]
    by (simp add: cont_line_bar value_stops_Nil line_end_def is_lineend_def)
  have "\<exists>pre pad l0 ls post.
          ''Name: foo\<newline> bar'' = pre @ ''Name'' @ CHR '':'' # pad @ l0 @ joined_text ls @ post
        \<and> ''foo\<newline> bar'' = l0 @ joined_value ls
        \<and> (\<forall>c\<in>set pad. c = SPC \<or> c = TAB) \<and> peek ''foo\<newline> bar'' \<noteq> SPC \<and> peek ''foo\<newline> bar'' \<noteq> TAB
        \<and> (\<forall>c\<in>set l0. \<not> is_lineend c)
        \<and> (\<forall>(e, l)\<in>set ls. line_end e \<and> cont_line l)
        \<and> value_stops post"
    by (rule continuation_lines_joined [where s = "''Name: foo\<newline> bar''" and doc = "[[(''Name'', ''foo\<newline> bar'')]]"
          and pg = "[(''Name'', ''foo\<newline> bar'')]" and nm = "''Name''" and v = "''foo\<newline> bar''",
          THEN conjunct1, rule_format])
      (simp add: parse_paragraphs_unterminated)
  then show "\<exists>pre pad l0 ls post.
          ''Name: foo\<newline> bar'' = pre @ ''Name'' @ CHR '':'' # pad @ l0 @ joined_text ls @ post
        \<and> ''foo\<newline> bar'' = l0 @ joined_value ls
        \<and> (\<forall>c\<in>set pad. c = SPC \<or> c = TAB)
        \<and> (\<forall>c\<in>set l0. \<not> is_lineend c)
        \<and> (\<forall>(e, l)\<in>set ls. line_end e \<and> cont_line l)
        \<and> value_stops post"
    apply (elim exE conjE)
    subgoal for pre pad l0 ls post
      by (intro exI [of _ pre] exI [of _ pad] exI [of _ l0] exI [of _ ls] exI [of _ post] conjI)
        assumption+
    done
qed

section \<open>Termination\<close>

lemma get_paragraphs_loop_acc:
  "get_paragraphs_loop (peek p) p acc =
     (case get_paragraphs_loop (peek p) p [] of Inl e \<Rightarrow> Inl e | Inr doc \<Rightarrow> Inr (acc @ doc))"
proof (induction "length p" arbitrary: p acc rule: less_induct)
  case (less p acc)
  note sync = get_paragraphs_loop_sync [of p]
  show ?case
  proof (cases "peek p = NUL")
    case True
    then show ?thesis by (simp add: get_paragraphs_loop_NUL)
  next
    case nn: False
    then have tl: "length (tl p) < length p" by (cases p) auto
    show ?thesis
    proof (cases "is_blank (peek p)")
      case True
      with nn less [OF tl, of acc] show ?thesis by (simp add: sync)
    next
      case False
      show ?thesis
      proof (cases "get_paragraph_loop (peek p) p []")
        case (Inl e)
        with nn False show ?thesis by (simp add: sync)
      next
        case (Inr x)
        obtain ch' fs r where x: "x = (ch', fs, r)" by (cases x)
        have "length r < length p"
          using Inr x nn get_paragraph_loop_shorter by simp
        from less [OF this, of "acc @ [fs]"] less [OF this, of "[fs]"] nn False Inr x
        show ?thesis by (simp add: sync split: sum.splits)
      qed
    qed
  qed
qed

lemma parse_paragraphs_unfold:
  "parse_paragraphs s =
     (if peek s = NUL then Inr []
      else if peek s = LF \<or> peek s = CR \<or> peek s = SPC \<or> peek s = TAB
      then parse_paragraphs (tl s)
      else
        (case get_paragraph (peek s) s of
           Inl err \<Rightarrow> Inl err
         | Inr (c', pg, r) \<Rightarrow>
             (case parse_paragraphs r of Inl err \<Rightarrow> Inl err | Inr doc \<Rightarrow> Inr (pg # doc))))"
proof (cases "get_paragraph_loop (peek s) s []")
  case (Inl e)
  then show ?thesis
    by (simp add: parse_paragraphs_sync get_paragraphs_loop_sync [of s "[]"] is_blank_def
        get_paragraph_def)
next
  case (Inr x)
  obtain c' pg r where x: "x = (c', pg, r)" by (cases x)
  show ?thesis
    using Inr x get_paragraphs_loop_acc [of r "[pg]"]
    by (simp add: parse_paragraphs_sync get_paragraphs_loop_sync [of s "[]"] is_blank_def
        get_paragraph_def split: sum.splits)
qed

lemma get_paragraph_shorter:
  assumes "peek s \<noteq> NUL" and "get_paragraph (peek s) s = Inr (c', pg, r)"
  shows "length r < length s"
  using assms get_paragraph_loop_shorter by (simp add: get_paragraph_def)

lemma value_stops_blank_end:
  assumes "line_end e" and "\<forall>c\<in>set ws. c = SPC \<or> c = TAB"
  shows "value_stops (e @ ws)" and "after_value (e @ ws) = []"
proof -
  have ws: "\<forall>c\<in>set ws. is_space c"
    using assms(2) by (simp add: is_space_def)
  then have "peek ws \<noteq> LF" and na: "\<not> is_alphanum (peek ws)"
    by (cases ws; auto dest: is_alphanum_not_space)+
  then have de: "drop_eol (e @ ws) = ws"
    using assms(1) by (intro drop_eol_line_end)
  have d: "dropWhile is_space ws = []"
    using ws by simp
  show "value_stops (e @ ws)"
    using line_end_peek [OF assms(1), of ws] by (simp add: value_stops_def de d)
  show "after_value (e @ ws) = []"
    using na by (simp add: after_value_def de d)
qed

lemma get_fieldvalue_blank_last_line:
  assumes "\<forall>c\<in>set l0. \<not> is_lineend c" and "\<forall>(e, l)\<in>set ls. line_end e \<and> cont_line l"
    and "line_end e'" and "\<forall>c\<in>set ws. c = SPC \<or> c = TAB"
  shows "get_fieldvalue (peek (l0 @ joined_text ls @ e' @ ws)) (l0 @ joined_text ls @ e' @ ws) =
     (NUL, l0 @ joined_value ls, [])"
  using get_fieldvalue_lines [OF assms(1,2) value_stops_blank_end(1) [OF assms(3,4)]]
  by (simp add: value_stops_blank_end(2) [OF assms(3,4)])

text \<open>
  C2: every loop of the parser is a total function here (the termination proofs above: each
  iteration shortens the unread text or sets the lookahead to 0, on which every loop stops),
  so \<open>parse_paragraphs\<close> returns on every string. What it returns is fixed by the text
  alone: nothing at a NUL or at the end, the document of the rest after a blank character,
  and otherwise the paragraph that \<open>get_paragraph\<close> reads followed by the document of the
  text it leaves, or the first error, with no paragraphs. Both continue on a strictly shorter
  text. At the end of the input \<open>skip_spaces\<close> stops after one step. When the line after the
  last line of a value, however many lines the value has and however they are terminated,
  is only spaces and tabs up to the end of the input, \<open>get_fieldvalue\<close> returns the value
  with the input consumed, and a document that ends so is parsed completely.
\<close>

theorem parsing_total:
  "parse_paragraphs s =
     (if peek s = NUL then Inr []
      else if peek s = LF \<or> peek s = CR \<or> peek s = SPC \<or> peek s = TAB
      then parse_paragraphs (tl s)
      else
        (case get_paragraph (peek s) s of
           Inl err \<Rightarrow> Inl err
         | Inr (c', pg, r) \<Rightarrow>
             (case parse_paragraphs r of Inl err \<Rightarrow> Inl err | Inr doc \<Rightarrow> Inr (pg # doc))))
   \<and> (peek s \<noteq> NUL \<longrightarrow> length (tl s) < length s)
   \<and> (peek s \<noteq> NUL \<and> get_paragraph (peek s) s = Inr (c', pg, r) \<longrightarrow> length r < length s)
   \<and> (get_paragraph c p = Inr (c', pg, p') \<longrightarrow> length p' < length p \<or> (p' = [] \<and> c' = NUL))
   \<and> skip_spaces ch [] = (if ch = SPC \<or> ch = TAB then NUL else ch, [])
   \<and> ((\<forall>c\<in>set l0. \<not> is_lineend c) \<and> (\<forall>(e, l)\<in>set ls. line_end e \<and> cont_line l)
        \<and> line_end e' \<and> (\<forall>c\<in>set ws. c = SPC \<or> c = TAB) \<longrightarrow>
      get_fieldvalue (peek (l0 @ joined_text ls @ e' @ ws)) (l0 @ joined_text ls @ e' @ ws) =
        (NUL, l0 @ joined_value ls, []))
   \<and> (blank_text lead \<and> (\<forall>pg\<in>set d. wf_para pg) \<and> fs \<noteq> [] \<and> wf_fields fs
        \<and> (\<forall>c\<in>set ws. c = SPC \<or> c = TAB) \<longrightarrow>
      parse_paragraphs (lead @ render_doc d @ render_fields fs @ ws) =
        Inr (doc_value d @ [map field_entry fs]))"
proof (intro conjI impI)
  show "parse_paragraphs s =
     (if peek s = NUL then Inr []
      else if peek s = LF \<or> peek s = CR \<or> peek s = SPC \<or> peek s = TAB
      then parse_paragraphs (tl s)
      else
        (case get_paragraph (peek s) s of
           Inl err \<Rightarrow> Inl err
         | Inr (c', pg, r) \<Rightarrow>
             (case parse_paragraphs r of Inl err \<Rightarrow> Inl err | Inr doc \<Rightarrow> Inr (pg # doc))))"
    by (rule parse_paragraphs_unfold)
  show "length (tl s) < length s" if "peek s \<noteq> NUL"
    using that by (cases s) auto
  show "length r < length s" if "peek s \<noteq> NUL \<and> get_paragraph (peek s) s = Inr (c', pg, r)"
    using that get_paragraph_shorter by blast
  show "length p' < length p \<or> (p' = [] \<and> c' = NUL)" if "get_paragraph c p = Inr (c', pg, p')"
    using that get_paragraph_loop_progress [of c p "[]" c' pg p'] by (simp add: get_paragraph_def)
  show "skip_spaces ch [] = (if ch = SPC \<or> ch = TAB then NUL else ch, [])"
    by (rule skip_spaces_Nil)
  show "get_fieldvalue (peek (l0 @ joined_text ls @ e' @ ws)) (l0 @ joined_text ls @ e' @ ws) =
        (NUL, l0 @ joined_value ls, [])"
    if "(\<forall>c\<in>set l0. \<not> is_lineend c) \<and> (\<forall>(e, l)\<in>set ls. line_end e \<and> cont_line l)
        \<and> line_end e' \<and> (\<forall>c\<in>set ws. c = SPC \<or> c = TAB)"
    using that by (intro get_fieldvalue_blank_last_line) simp_all
  show "parse_paragraphs (lead @ render_doc d @ render_fields fs @ ws) =
        Inr (doc_value d @ [map field_entry fs])"
    if "blank_text lead \<and> (\<forall>pg\<in>set d. wf_para pg) \<and> fs \<noteq> [] \<and> wf_fields fs
        \<and> (\<forall>c\<in>set ws. c = SPC \<or> c = TAB)"
    using that by (intro parse_paragraphs_last) (auto simp: blank_text_def is_blank_def)
qed

lemma get_paragraph_example:
  "get_paragraph (CHR ''A'') ''A: foo\<newline> bar\<newline>  '' = Inr (NUL, [(''A'', ''foo\<newline> bar'')], [])"
  by code_simp

theorem parsing_total_witness:
  "parse_paragraphs ''A: foo\<newline> bar\<newline>  '' = Inr [[(''A'', ''foo\<newline> bar'')]]
   \<and> parse_paragraphs (''\<newline>X: 0'' @ [CR, LF] @ '' \<newline>Name: foo\<newline> bar\<newline>  '') =
       Inr [[(''X'', ''0'')], [(''Name'', ''foo\<newline> bar'')]]
   \<and> get_fieldvalue (CHR ''f'') ''foo\<newline> bar\<newline>  '' = (NUL, ''foo\<newline> bar'', [])
   \<and> get_fieldvalue (CHR ''f'') (''foo'' @ [CR] @ '' bar'' @ [CR] @ [TAB]) = (NUL, ''foo\<newline> bar'', [])
   \<and> skip_spaces SPC [] = (NUL, [])
   \<and> length ([] :: string) < length ''A: foo\<newline> bar\<newline>  ''"
proof (intro conjI)
  show "parse_paragraphs ''A: foo\<newline> bar\<newline>  '' = Inr [[(''A'', ''foo\<newline> bar'')]]"
    using parsing_total [where s = "''A: foo\<newline> bar\<newline>  ''"] get_paragraph_example
    by (simp add: parsing_total [where s = "[]"])
  show "parse_paragraphs (''\<newline>X: 0'' @ [CR, LF] @ '' \<newline>Name: foo\<newline> bar\<newline>  '') =
       Inr [[(''X'', ''0'')], [(''Name'', ''foo\<newline> bar'')]]"
    using parsing_total [where s = "[]" and lead = "''\<newline>''" and ws = "''  ''"
        and d = "[([\<lparr>f_name = ''X'', f_pad = '' '', f_line = ''0'', f_eol = [CR, LF], f_more = []\<rparr>],
           '' \<newline>'')]"
        and fs = "[\<lparr>f_name = ''Name'', f_pad = '' '', f_line = ''foo'', f_eol = [LF],
           f_more = [('' bar'', [LF])]\<rparr>]"]
    by (simp add: wf_field_example wf_para_X wf_fields_def blank_text_def is_blank_def doc_value_def
        render_field_def field_entry_def)
  show "get_fieldvalue (CHR ''f'') ''foo\<newline> bar\<newline>  '' = (NUL, ''foo\<newline> bar'', [])"
    using parsing_total [where s = "[]" and ?l0.0 = "''foo''" and ls = "[([LF], '' bar'')]" and e' = "[LF]"
        and ws = "''  ''"]
    by (simp add: cont_line_bar line_end_def is_lineend_def)
  show "get_fieldvalue (CHR ''f'') (''foo'' @ [CR] @ '' bar'' @ [CR] @ [TAB]) = (NUL, ''foo\<newline> bar'', [])"
    using parsing_total [where s = "[]" and ?l0.0 = "''foo''" and ls = "[([CR], '' bar'')]" and e' = "[CR]"
        and ws = "[TAB]"]
    by (simp add: cont_line_bar line_end_def is_lineend_def)
  show "skip_spaces SPC [] = (NUL, [])"
    using parsing_total [where s = "[]" and ch = SPC] by simp
  show "length ([] :: string) < length ''A: foo\<newline> bar\<newline>  ''"
    using parsing_total [where s = "''A: foo\<newline> bar\<newline>  ''" and c' = NUL and pg = "[(''A'', ''foo\<newline> bar'')]"
        and r = "[]"] get_paragraph_example
    by simp
qed

section \<open>Field names\<close>

text \<open>
  C3: every field name of a successful parse is a non-empty string over \<open>[A-Za-z0-9-]\<close>.
  The code does not ensure it. \<open>get_paragraphs\<close> starts a paragraph on any character that
  is not a line terminator, a space or a tab, and \<open>get_fieldname\<close> does not check that the
  run it has read is non-empty: the input \<open>": x\n"\<close> is parsed to one paragraph that maps
  the empty name to \<open>"x"\<close>. Inside a paragraph \<open>get_fieldvalue\<close> starts a field only on
  an alphanumeric character, so the same line after a field is a continuation line of that
  field's value and not a field.
\<close>

theorem empty_field_name_accepted:
  "parse_paragraphs '': x\<newline>'' = Inr [[('''', ''x'')]]
   \<and> parse_paragraphs ''A: 1\<newline>\<newline>: x\<newline>'' = Inr [[(''A'', ''1'')], [('''', ''x'')]]
   \<and> parse_paragraphs ''A: 1\<newline>: x\<newline>'' = Inr [[(''A'', ''1\<newline>: x'')]]"
  by code_simp

text \<open>
  What does hold of the names: in every paragraph of a successful parse (which has at least
  one field) every field name consists of characters of \<open>[A-Za-z0-9-]\<close> only and stands in
  the input immediately before a \<open>':'\<close>, and every field name but the first of its
  paragraph is non-empty and starts with an alphanumeric character.
\<close>

lemma field_names_charset:
  assumes "parse_paragraphs s = Inr doc" and "pg \<in> set doc"
  shows "pg \<noteq> []
    \<and> (\<forall>(nm, v)\<in>set pg.
          (\<forall>c\<in>set nm. is_alphanum c \<or> c = CHR ''-'')
          \<and> (\<exists>pre post. s = pre @ nm @ CHR '':'' # post))
    \<and> (\<forall>(nm, v)\<in>set (tl pg). nm \<noteq> [] \<and> is_alphanum (hd nm))"
proof -
  from parse_paragraphs_fields_from [OF assms]
  obtain e es where pg: "pg = e # es"
    and e: "\<exists>q. suffix q s \<and> field_at q e"
    and es: "\<forall>e'\<in>set es. \<exists>q. suffix q s \<and> is_alphanum (peek q) \<and> field_at q e'"
    unfolding fields_from_def by blast
  have "\<forall>(nm, v)\<in>set pg. (\<forall>c\<in>set nm. is_alphanum c \<or> c = CHR ''-'')
          \<and> (\<exists>pre post. s = pre @ nm @ CHR '':'' # post)"
    using pg e es field_at_name by (auto; blast)
  moreover have "\<forall>(nm, v)\<in>set (tl pg). nm \<noteq> [] \<and> is_alphanum (hd nm)"
    using pg es field_at_name_later by (auto; blast)
  ultimately show ?thesis
    using pg by simp
qed

lemma parse_paragraphs_names_example:
  "parse_paragraphs ''-a: 1\<newline>B-2: x\<newline>'' = Inr [[(''-a'', ''1''), (''B-2'', ''x'')]]"
  by code_simp

lemma field_names_charset_example:
  "parse_paragraphs ''-a: 1\<newline>B-2: x\<newline>'' = Inr [[(''-a'', ''1''), (''B-2'', ''x'')]]
   \<and> (\<exists>pre post. ''-a: 1\<newline>B-2: x\<newline>'' = pre @ ''B-2'' @ CHR '':'' # post)
   \<and> is_alphanum (CHR ''B'')"
  using field_names_charset [of "''-a: 1\<newline>B-2: x\<newline>''"
      "[[(''-a'', ''1''), (''B-2'', ''x'')]]" "[(''-a'', ''1''), (''B-2'', ''x'')]"]
  by (simp add: parse_paragraphs_names_example)

section \<open>Duplicate fields\<close>





section \<open>Malformed field names\<close>



section \<open>Stored values\<close>

text \<open>
  C7: a value stored by a successful parse contains no \<open>'\r'\<close>, does not end with a line
  terminator, and every \<open>'\n'\<close> in it is followed by a character of the next line that is
  not a line terminator: the terminators of the physical lines are gone, and \<open>'\n'\<close>
  stands only where a continuation line was joined.
\<close>

theorem stored_values_normalised:
  assumes "parse_paragraphs s = Inr doc" and "pg \<in> set doc" and "(nm, v) \<in> set pg"
  shows "CR \<notin> set v
    \<and> (v \<noteq> [] \<longrightarrow> \<not> is_lineend (last v))
    \<and> (\<forall>pre post. v = pre @ LF # post \<longrightarrow> post \<noteq> [] \<and> \<not> is_lineend (hd post))"
proof -
  from parse_paragraphs_fields_from [OF assms(1,2)] assms(3)
  obtain q where "field_at q (nm, v)"
    using fields_from_entry by blast
  then obtain r where fv: "field_value (value_start q) = (v, r)"
    by (cases "field_value (value_start q)") (simp add: field_at_def)
  show ?thesis
    using field_value_no_CR [OF fv] field_value_last [OF fv] field_value_joins [OF fv]
    by blast
qed

lemma parse_paragraphs_cr_example:
  "parse_paragraphs (''A: 1'' @ [CR, LF] @ '' x'' @ [CR] @ '' y'' @ [LF]) =
     Inr [[(''A'', ''1\<newline> x\<newline> y'')]]"
  by code_simp

theorem stored_values_normalised_witness:
  "parse_paragraphs (''A: 1'' @ [CR, LF] @ '' x'' @ [CR] @ '' y'' @ [LF]) =
     Inr [[(''A'', ''1\<newline> x\<newline> y'')]]
   \<and> CR \<notin> set ''1\<newline> x\<newline> y''
   \<and> \<not> is_lineend (last ''1\<newline> x\<newline> y'')
   \<and> \<not> is_lineend (hd '' x\<newline> y'')"
proof -
  note ex = parse_paragraphs_cr_example
  have th: "CR \<notin> set ''1\<newline> x\<newline> y''
    \<and> (''1\<newline> x\<newline> y'' \<noteq> [] \<longrightarrow> \<not> is_lineend (last ''1\<newline> x\<newline> y''))
    \<and> (\<forall>pre post. ''1\<newline> x\<newline> y'' = pre @ LF # post \<longrightarrow> post \<noteq> [] \<and> \<not> is_lineend (hd post))"
    by (rule stored_values_normalised [OF ex, of "[(''A'', ''1\<newline> x\<newline> y'')]" "''A''"])
      simp_all
  have "\<not> is_lineend (last ''1\<newline> x\<newline> y'')"
    using th [THEN conjunct2, THEN conjunct1] by simp
  moreover have "\<not> is_lineend (hd '' x\<newline> y'')"
    using th [THEN conjunct2, THEN conjunct2, rule_format, of "''1''" "'' x\<newline> y''"] by simp
  ultimately show ?thesis
    using ex th [THEN conjunct1] by simp
qed

section \<open>Single paragraphs\<close>

text \<open>
  C8: \<open>parse_single_paragraph\<close> returns the paragraph when the parsed document has exactly
  one, and fails with \<open>ExpectedOnlyOneParagraph\<close> when it has none or more than one; an
  error of the parse itself is passed on.
\<close>

theorem parse_single_paragraph_exactly_one:
  "parse_single_paragraph s =
     (case parse_paragraphs s of
        Inl e \<Rightarrow> Inl e
      | Inr doc \<Rightarrow> (case doc of [pgh] \<Rightarrow> Inr pgh | _ \<Rightarrow> Inl ExpectedOnlyOneParagraph))"
  by (auto simp: parse_single_paragraph_def parse_paragraphs_def split: sum.splits list.splits)

lemma parse_paragraphs_none: "parse_paragraphs ''\<newline>'' = Inr []"
  by code_simp

lemma parse_paragraphs_one: "parse_paragraphs ''A: 1\<newline>'' = Inr [[(''A'', ''1'')]]"
  by code_simp

lemma parse_paragraphs_two:
  "parse_paragraphs ''A: 1\<newline>\<newline>B: 2\<newline>'' = Inr [[(''A'', ''1'')], [(''B'', ''2'')]]"
  by code_simp

theorem parse_single_paragraph_exactly_one_witness:
  "parse_single_paragraph ''\<newline>'' = Inl ExpectedOnlyOneParagraph
   \<and> parse_single_paragraph ''A: 1\<newline>'' = Inr [(''A'', ''1'')]
   \<and> parse_single_paragraph ''A: 1\<newline>\<newline>B: 2\<newline>'' = Inl ExpectedOnlyOneParagraph"
  using parse_single_paragraph_exactly_one [of "''\<newline>''"]
    parse_single_paragraph_exactly_one [of "''A: 1\<newline>''"]
    parse_single_paragraph_exactly_one [of "''A: 1\<newline>\<newline>B: 2\<newline>''"]
  by (simp add: parse_paragraphs_none parse_paragraphs_one parse_paragraphs_two)

section \<open>Port names and versions: the first occurrence wins\<close>

lemma fold_map_emplace:
  "fold (\<lambda>port m. map_emplace m (name port) (version port)) ports m nm =
     (case m nm of
        Some v \<Rightarrow> Some v
      | None \<Rightarrow> map_option version (find (\<lambda>port. name port = nm) ports))"
  by (induction ports arbitrary: m) (auto simp: map_emplace_def split: option.splits)

text \<open>
  C9: \<open>extract_port_names_and_versions\<close> maps a name to the version of the first port
  of the sequence that bears it (and to nothing when no port does); a later port of the same
  name never replaces it.
\<close>

theorem extract_port_names_and_versions_first_wins:
  "extract_port_names_and_versions ports nm =
     map_option version (find (\<lambda>port. name port = nm) ports)"
  by (simp add: extract_port_names_and_versions_def fold_map_emplace)

theorem extract_port_names_and_versions_first_wins_witness:
  "extract_port_names_and_versions
     [\<lparr>name = ''x'', version = (1::nat)\<rparr>, \<lparr>name = ''y'', version = 5\<rparr>,
      \<lparr>name = ''x'', version = 2\<rparr>] ''x'' = Some 1"
  using extract_port_names_and_versions_first_wins
    [of "[\<lparr>name = ''x'', version = (1::nat)\<rparr>, \<lparr>name = ''y'', version = 5\<rparr>,
          \<lparr>name = ''x'', version = 2\<rparr>]" "''x''"]
  by simp

section \<open>NUL characters\<close>

definition until_nul :: "string \<Rightarrow> string" where
  "until_nul s = takeWhile (\<lambda>c. c \<noteq> NUL) s"

lemma until_nul_peek [simp]: "peek (until_nul s) = peek s"
  by (cases s) (simp_all add: until_nul_def)

lemma until_nul_tl: "peek s \<noteq> NUL \<Longrightarrow> tl (until_nul s) = until_nul (tl s)"
  by (cases s) (simp_all add: until_nul_def)

lemma until_nul_takeWhile: "\<not> P NUL \<Longrightarrow> takeWhile P (until_nul s) = takeWhile P s"
  by (induction s) (auto simp: until_nul_def)

lemma until_nul_dropWhile: "\<not> P NUL \<Longrightarrow> dropWhile P (until_nul s) = until_nul (dropWhile P s)"
  by (induction s) (auto simp: until_nul_def)

lemma until_nul_drop_eol: "drop_eol (until_nul r) = until_nul (drop_eol r)"
  by (auto simp: drop_eol_def Let_def until_nul_tl)

lemma until_nul_field_value:
  "field_value (until_nul b) = (case field_value b of (v, r) \<Rightarrow> (v, until_nul r))"
proof (induction b rule: field_value.induct)
  case (1 b)
  define r3 where "r3 = drop_eol (dropWhile in_line b)"
  have r3: "drop_eol (dropWhile in_line (until_nul b)) = until_nul r3"
    by (simp add: r3_def until_nul_dropWhile until_nul_drop_eol)
  have line: "takeWhile in_line (until_nul b) = takeWhile in_line b"
    by (simp add: until_nul_takeWhile)
  have r4: "dropWhile is_space (until_nul r3) = until_nul (dropWhile is_space r3)"
    by (simp add: until_nul_dropWhile)
  show ?case
  proof (cases "is_alphanum (peek r3) \<or> is_lineend (peek (dropWhile is_space r3))")
    case True
    then show ?thesis
      by (auto simp: field_value.simps [of b] field_value.simps [of "until_nul b"]
          r3 line r4 r3_def [symmetric] Let_def)
  next
    case False
    have "field_value (until_nul r3) = (case field_value r3 of (v, r) \<Rightarrow> (v, until_nul r))"
      using "1.IH" [OF refl refl _ refl] False by (simp add: r3_def)
    with False show ?thesis
      by (auto simp: field_value.simps [of b] field_value.simps [of "until_nul b"]
          r3 line r4 r3_def [symmetric] Let_def split: prod.splits)
  qed
qed

lemma until_nul_value_start:
  assumes "peek (dropWhile name_char p) = CHR '':''"
  shows "value_start (until_nul p) = until_nul (value_start p)"
proof -
  have "peek (dropWhile name_char p) \<noteq> NUL"
    using assms by simp
  then show ?thesis
    by (simp add: value_start_def until_nul_dropWhile until_nul_tl)
qed

lemma until_nul_paragraph:
  "get_paragraph_loop (peek (until_nul p)) (until_nul p) fs =
     (case get_paragraph_loop (peek p) p fs of
        Inl e \<Rightarrow> Inl e
      | Inr (ch, fs', r) \<Rightarrow> Inr (ch, fs', until_nul r))"
proof (induction p fs rule: paragraph_induct)
  case (step p fs)
  have nm: "takeWhile name_char (until_nul p) = takeWhile name_char p"
    by (simp add: until_nul_takeWhile)
  have colon: "peek (dropWhile name_char (until_nul p)) = peek (dropWhile name_char p)"
    by (simp add: until_nul_dropWhile)
  note lhs = get_paragraph_loop_sync [of "until_nul p" fs, unfolded nm colon]
  note rhs = get_paragraph_loop_sync [of p fs]
  show ?case
  proof (cases "peek (dropWhile name_char p) = CHR '':'' \<and> find_field fs (takeWhile name_char p) = None")
    case False
    then show ?thesis
      using lhs rhs by auto
  next
    case True
    obtain v r where fv: "field_value (value_start p) = (v, r)"
      by (cases "field_value (value_start p)")
    have fv': "field_value (value_start (until_nul p)) = (v, until_nul r)"
      using True fv by (simp add: until_nul_value_start until_nul_field_value)
    show ?thesis
    proof (cases "is_lineend (peek r)")
      case True
      with \<open>_ \<and> _\<close> fv fv' lhs rhs show ?thesis by simp
    next
      case False
      with \<open>_ \<and> _\<close> fv fv' lhs rhs step [OF _ _ fv False] show ?thesis by simp
    qed
  qed
qed

lemma until_nul_document:
  "get_paragraphs_loop (peek (until_nul p)) (until_nul p) acc = get_paragraphs_loop (peek p) p acc"
proof (induction p acc rule: document_induct)
  case (step p acc)
  note lhs = get_paragraphs_loop_sync [of "until_nul p" acc]
  note rhs = get_paragraphs_loop_sync [of p acc]
  show ?case
  proof (cases "peek p = NUL")
    case True
    with lhs rhs show ?thesis by simp
  next
    case nn: False
    show ?thesis
    proof (cases "is_blank (peek p)")
      case True
      with nn lhs rhs step(1) show ?thesis
        by (simp add: until_nul_tl)
    next
      case False
      show ?thesis
      proof (cases "get_paragraph_loop (peek p) p []")
        case (Inl e)
        with nn False lhs rhs show ?thesis
          by (simp add: until_nul_paragraph [of p "[]", simplified])
      next
        case (Inr x)
        obtain ch' fs r where x: "x = (ch', fs, r)" by (cases x)
        from nn False lhs rhs Inr x step(2) [OF nn False Inr [unfolded x]] show ?thesis
          by (simp add: until_nul_paragraph [of p "[]", simplified])
      qed
    qed
  qed
qed

lemma parse_paragraphs_until_nul:
  "parse_paragraphs s = parse_paragraphs (until_nul s)"
  using until_nul_document [of s "[]"] by (simp add: parse_paragraphs_sync)

text \<open>
  C10: a NUL character in the input ends the parse. Whatever follows the first NUL is
  ignored: the result, paragraphs or error, is that of the text before it.
\<close>

theorem parse_paragraphs_stops_at_NUL:
  assumes "NUL \<notin> set pre"
  shows "parse_paragraphs (pre @ NUL # post) = parse_paragraphs pre"
proof -
  have "until_nul (pre @ NUL # post) = pre" and "until_nul pre = pre"
    using assms by (auto simp: until_nul_def takeWhile_tail)
  then show ?thesis
    using parse_paragraphs_until_nul [of "pre @ NUL # post"] by simp
qed

theorem parse_paragraphs_stops_at_NUL_witness:
  "NUL \<notin> set ''A: 1\<newline>''
   \<and> parse_paragraphs (''A: 1\<newline>'' @ NUL # ''B: 2\<newline>'') = Inr [[(''A'', ''1'')]]"
  using parse_paragraphs_stops_at_NUL [of "''A: 1\<newline>''" "''B: 2\<newline>''"]
  by (simp add: parse_paragraphs_one)

section \<open>Line terminators\<close>

definition to_crlf :: "string \<Rightarrow> string" where
  "to_crlf s = concat (map (\<lambda>c. if c = LF then [CR, LF] else [c]) s)"

lemma to_crlf_Nil [simp]: "to_crlf [] = []"
  by (simp add: to_crlf_def)

lemma to_crlf_Cons [simp]:
  "to_crlf (c # s) = (if c = LF then CR # LF # to_crlf s else c # to_crlf s)"
  by (simp add: to_crlf_def)

lemma to_crlf_takeWhile: "\<not> P LF \<Longrightarrow> \<not> P CR \<Longrightarrow> takeWhile P (to_crlf s) = takeWhile P s"
  by (induction s) auto

lemma to_crlf_dropWhile:
  "\<not> P LF \<Longrightarrow> \<not> P CR \<Longrightarrow> dropWhile P (to_crlf s) = to_crlf (dropWhile P s)"
  by (induction s) auto

lemma to_crlf_peek: "peek (to_crlf s) = (if peek s = LF then CR else peek s)"
  by (cases s) auto

lemma to_crlf_tl: "peek s \<noteq> LF \<Longrightarrow> tl (to_crlf s) = to_crlf (tl s)"
  by (cases s) auto

lemma to_crlf_drop_eol: "CR \<notin> set r \<Longrightarrow> drop_eol (to_crlf r) = to_crlf (drop_eol r)"
  by (cases r) (auto simp: drop_eol_def Let_def)

lemma to_crlf_field_value:
  "CR \<notin> set b \<Longrightarrow> field_value (to_crlf b) = (case field_value b of (v, r) \<Rightarrow> (v, to_crlf r))"
proof (induction b rule: field_value.induct)
  case (1 b)
  define r3 where "r3 = drop_eol (dropWhile in_line b)"
  have "suffix r3 b"
    using drop_eol_suffix [of "dropWhile in_line b"] suffix_dropWhile [of in_line b]
    by (auto simp: r3_def intro: suffix_order.trans)
  then have cr3: "CR \<notin> set r3"
    using "1.prems" set_mono_suffix by blast
  have "CR \<notin> set (dropWhile in_line b)"
    using "1.prems" by (auto dest: set_dropWhileD)
  then have r3: "drop_eol (dropWhile in_line (to_crlf b)) = to_crlf r3"
    by (simp add: r3_def to_crlf_dropWhile to_crlf_drop_eol)
  have line: "takeWhile in_line (to_crlf b) = takeWhile in_line b"
    by (simp add: to_crlf_takeWhile)
  have r4: "dropWhile is_space (to_crlf r3) = to_crlf (dropWhile is_space r3)"
    by (simp add: to_crlf_dropWhile)
  have an: "is_alphanum (peek (to_crlf r3)) = is_alphanum (peek r3)"
    by (simp add: to_crlf_peek)
  have le: "is_lineend (peek (to_crlf (dropWhile is_space r3))) = is_lineend (peek (dropWhile is_space r3))"
    by (simp add: to_crlf_peek)
  show ?case
  proof (cases "is_alphanum (peek r3) \<or> is_lineend (peek (dropWhile is_space r3))")
    case True
    then show ?thesis
      by (auto simp: field_value.simps [of b] field_value.simps [of "to_crlf b"]
          r3 line r4 an le r3_def [symmetric] Let_def)
  next
    case False
    have "field_value (to_crlf r3) = (case field_value r3 of (v, r) \<Rightarrow> (v, to_crlf r))"
      using "1.IH" [OF refl refl _ refl] False cr3 by (simp add: r3_def)
    with False show ?thesis
      by (auto simp: field_value.simps [of b] field_value.simps [of "to_crlf b"]
          r3 line r4 an le r3_def [symmetric] Let_def split: prod.splits)
  qed
qed

lemma to_crlf_value_start:
  assumes "peek (dropWhile name_char p) = CHR '':''"
  shows "value_start (to_crlf p) = to_crlf (value_start p)"
proof -
  have "peek (dropWhile name_char p) \<noteq> LF"
    using assms by simp
  then show ?thesis
    by (simp add: value_start_def to_crlf_dropWhile to_crlf_tl)
qed

lemma to_crlf_paragraph:
  "CR \<notin> set p \<Longrightarrow>
   get_paragraph_loop (peek (to_crlf p)) (to_crlf p) fs =
     (case get_paragraph_loop (peek p) p fs of
        Inl e \<Rightarrow> Inl e
      | Inr (ch, fs', r) \<Rightarrow> Inr (peek (to_crlf r), fs', to_crlf r))"
proof (induction p fs rule: paragraph_induct)
  case (step p fs)
  have nm: "takeWhile name_char (to_crlf p) = takeWhile name_char p"
    by (simp add: to_crlf_takeWhile)
  have colon: "(peek (dropWhile name_char (to_crlf p)) = CHR '':'') = (peek (dropWhile name_char p) = CHR '':'')"
    by (simp add: to_crlf_dropWhile to_crlf_peek)
  note lhs = get_paragraph_loop_sync [of "to_crlf p" fs, unfolded nm colon]
  note rhs = get_paragraph_loop_sync [of p fs]
  show ?case
  proof (cases "peek (dropWhile name_char p) = CHR '':'' \<and> find_field fs (takeWhile name_char p) = None")
    case False
    then show ?thesis
      using lhs rhs by auto
  next
    case True
    obtain v r where fv: "field_value (value_start p) = (v, r)"
      by (cases "field_value (value_start p)")
    have "suffix r p"
      using field_value_suffix [OF fv] value_start_suffix [of p] by (rule suffix_order.trans)
    then have cr: "CR \<notin> set r"
      using step.prems set_mono_suffix by blast
    have "CR \<notin> set (value_start p)"
      using step.prems set_mono_suffix [OF value_start_suffix [of p]] by blast
    then have fv': "field_value (value_start (to_crlf p)) = (v, to_crlf r)"
      using True fv by (simp add: to_crlf_value_start to_crlf_field_value)
    have le: "is_lineend (peek (to_crlf r)) = is_lineend (peek r)"
      by (simp add: to_crlf_peek)
    show ?thesis
    proof (cases "is_lineend (peek r)")
      case True
      with \<open>_ \<and> _\<close> fv fv' lhs rhs le show ?thesis by simp
    next
      case False
      with \<open>_ \<and> _\<close> fv fv' lhs rhs le step.IH [OF _ _ fv False cr] show ?thesis by simp
    qed
  qed
qed

lemma to_crlf_document:
  "CR \<notin> set p \<Longrightarrow>
   get_paragraphs_loop (peek (to_crlf p)) (to_crlf p) acc = get_paragraphs_loop (peek p) p acc"
proof (induction p acc rule: document_induct)
  case (step p acc)
  note rhs = get_paragraphs_loop_sync [of p acc]
  show ?case
  proof (cases p)
    case Nil
    then show ?thesis by simp
  next
    case (Cons c q)
    have cq: "CR \<notin> set q" and c: "c \<noteq> CR"
      using step.prems Cons by auto
    show ?thesis
    proof (cases "c = NUL")
      case True
      with Cons show ?thesis
        by (simp add: get_paragraphs_loop_NUL)
    next
      case nn: False
      show ?thesis
      proof (cases "is_blank c")
        case True
        have ih: "get_paragraphs_loop (peek (to_crlf q)) (to_crlf q) acc = get_paragraphs_loop (peek q) q acc"
          using step.IH(1) nn True Cons cq by simp
        show ?thesis
        proof (cases "c = LF")
          case True
          have "get_paragraphs_loop (peek (to_crlf p)) (to_crlf p) acc =
              get_paragraphs_loop (peek (to_crlf q)) (to_crlf q) acc"
            using True Cons
            by (simp add: get_paragraphs_loop_blank is_blank_def)
          with ih rhs True Cons show ?thesis by (simp add: is_blank_def)
        next
          case False
          have "get_paragraphs_loop (peek (to_crlf p)) (to_crlf p) acc =
              get_paragraphs_loop (peek (to_crlf q)) (to_crlf q) acc"
            using False \<open>is_blank c\<close> nn Cons
            by (simp add: get_paragraphs_loop_blank)
          with ih rhs \<open>is_blank c\<close> nn Cons show ?thesis by simp
        qed
      next
        case False
        then have "c \<noteq> LF" by (auto simp: is_blank_def)
        then have pk: "peek (to_crlf p) = c"
          using Cons by simp
        note lhs = get_paragraphs_loop_sync [of "to_crlf p" acc, unfolded pk]
        note para = to_crlf_paragraph [OF step.prems, of "[]", unfolded pk]
        show ?thesis
        proof (cases "get_paragraph_loop (peek p) p []")
          case (Inl e)
          with nn False lhs rhs para Cons \<open>c \<noteq> LF\<close> show ?thesis
            by simp
        next
          case (Inr x)
          obtain ch' fs r where x: "x = (ch', fs, r)" by (cases x)
          have "suffix r p"
            using Inr x get_paragraph_loop_suffix by simp
          then have cr: "CR \<notin> set r"
            using step.prems set_mono_suffix by blast
          from nn False lhs rhs para Inr x Cons \<open>c \<noteq> LF\<close>
            step.IH(2) [OF _ _ Inr [unfolded x] cr]
          show ?thesis
            by simp
        qed
      qed
    qed
  qed
qed

text \<open>
  C6: a text without carriage returns and the same text with every \<open>"\n"\<close> written as
  \<open>"\r\n"\<close> parse to the same result: the same paragraphs with the same names and
  values, or the same error.
\<close>

theorem parse_paragraphs_crlf:
  assumes "CR \<notin> set s"
  shows "parse_paragraphs (to_crlf s) = parse_paragraphs s"
  using to_crlf_document [OF assms, of "[]"]
  by (simp add: parse_paragraphs_sync)

lemma parse_paragraphs_lf_example:
  "parse_paragraphs ''A: 1\<newline> x\<newline>B: 2\<newline>\<newline>C: 3\<newline>'' =
     Inr [[(''A'', ''1\<newline> x''), (''B'', ''2'')], [(''C'', ''3'')]]"
  by code_simp

theorem parse_paragraphs_crlf_witness:
  "CR \<notin> set ''A: 1\<newline> x\<newline>B: 2\<newline>\<newline>C: 3\<newline>''
   \<and> parse_paragraphs
        (''A: 1'' @ [CR, LF] @ '' x'' @ [CR, LF] @ ''B: 2'' @ [CR, LF, CR, LF] @ ''C: 3'' @ [CR, LF]) =
       Inr [[(''A'', ''1\<newline> x''), (''B'', ''2'')], [(''C'', ''3'')]]"
  using parse_paragraphs_crlf [of "''A: 1\<newline> x\<newline>B: 2\<newline>\<newline>C: 3\<newline>''"]
  by (simp add: parse_paragraphs_lf_example)

end
